theory Spec2Isabelle
  imports Main
begin

section \<open>JavaScript values and errors\<close>

text \<open>
  The values that flow through validation. Numbers are modelled as integers (the limits,
  lengths and depths the modelled code computes with are integers); strings are sequences
  of code units below 256. An array, an object and a regular expression are objects: each
  carries its identity, a number that no other object has, before its contents (for a
  regular expression, its source and its flags).
\<close>

datatype jsval =
    JUndefined
  | JNull
  | JBool bool
  | JNum int
  | JStr string
  | JArr nat "jsval list"
  | JObj nat "(string \<times> jsval) list"
  | JRegExp nat string string

text \<open>
  A thrown exception. \<open>Hoek.assert(cond, msg, ...)\<close> throws when \<open>cond\<close> is falsy; the
  model keeps the fixed message. \<open>new Array(n)\<close> throws a RangeError on an invalid length;
  reading a property of \<open>null\<close> or \<open>undefined\<close>, or spreading a value that is not iterable,
  throws a TypeError.
\<close>

datatype error = AssertError string | RangeError string | TypeError string

text \<open>Array indexing as JavaScript does it: \<open>undefined\<close> outside the array.\<close>

definition js_index :: "jsval list \<Rightarrow> int \<Rightarrow> jsval" where
  "js_index xs i = (if 0 \<le> i \<and> i < int (length xs) then xs ! nat i else JUndefined)"

text \<open>
  \<open>String.prototype.trim\<close> strips white space and line terminators. Of these, a code unit
  below 256 can be TAB, LF, VT, FF, CR, the space and the no-break space U+00A0; the others
  (U+1680, U+2000 to U+200A, U+2028, U+2029, U+202F, U+205F, U+3000, U+FEFF) are not
  characters of the strings of this model.
\<close>

definition is_space :: "char \<Rightarrow> bool" where
  "is_space c =
     (c \<in> set [CHR '' '', CHR 0x09, CHR 0x0A, CHR 0x0B, CHR 0x0C, CHR 0x0D, CHR 0xA0])"

definition js_trim :: "string \<Rightarrow> string" where
  "js_trim s = rev (dropWhile is_space (rev (dropWhile is_space s)))"

text \<open>\<open>String.prototype.startsWith\<close> and \<open>split\<close> on a one-character separator.\<close>

definition starts_with :: "string \<Rightarrow> string \<Rightarrow> bool" where
  "starts_with s p = (take (length p) s = p)"

fun js_split :: "char \<Rightarrow> string \<Rightarrow> string list" where
  "js_split c [] = [[]]"
| "js_split c (x # xs) =
     (if x = c then [] # js_split c xs
      else (case js_split c xs of
              [] \<Rightarrow> [[x]]
            | w # ws \<Rightarrow> (x # w) # ws))"

text \<open>
  \<open>new Map(entries)\<close>, \<open>Map.prototype.get\<close> and \<open>[...map]\<close>. A Map keeps one entry for
  each key, at the place of the key's first insertion, with the value of its last. Keys
  are compared by SameValueZero: primitives by value, objects by identity.
\<close>

definition object_id :: "jsval \<Rightarrow> nat option" where
  "object_id v =
     (case v of
        JArr i xs \<Rightarrow> Some i
      | JObj i kvs \<Rightarrow> Some i
      | JRegExp i source flags \<Rightarrow> Some i
      | _ \<Rightarrow> None)"

definition same_value_zero :: "jsval \<Rightarrow> jsval \<Rightarrow> bool" where
  "same_value_zero a b =
     (case (object_id a, object_id b) of
        (None, None) \<Rightarrow> a = b
      | (Some i, Some j) \<Rightarrow> i = j
      | _ \<Rightarrow> False)"

type_synonym js_map = "(jsval \<times> jsval) list"

fun map_set :: "js_map \<Rightarrow> jsval \<Rightarrow> jsval \<Rightarrow> js_map" where
  "map_set [] k v = [(k, v)]"
| "map_set ((k', v') # m) k v =
     (if same_value_zero k' k then (k', v) # m else (k', v') # map_set m k v)"

definition map_new :: "(jsval \<times> jsval) list \<Rightarrow> js_map" where
  "map_new entries = foldl (\<lambda>m (k, v). map_set m k v) [] entries"

fun map_get :: "js_map \<Rightarrow> jsval \<Rightarrow> jsval" where
  "map_get [] k = JUndefined"
| "map_get ((k', v') # m) k = (if same_value_zero k' k then v' else map_get m k)"

definition map_entries :: "js_map \<Rightarrow> (jsval \<times> jsval) list" where
  "map_entries m = m"


section \<open>References\<close>

subsection \<open>Data\<close>

datatype ref_type = TValue | TGlobal | TLocal

text \<open>\<open>ancestor\<close> is the string \<open>'root'\<close> or a number.\<close>

datatype ancestor_val = Root | Depth int

text \<open>
  \<open>separator\<close> is \<open>false\<close>, \<open>undefined\<close> or a one-character string (the constructor
  rejects every other value with 'Invalid separator').
\<close>

datatype separator_val = SepFalse | SepUndefined | SepChar char

text \<open>A path segment is a string, or \<open>null\<close> (\<open>None\<close>) for the empty key of a root reference
  taken literally.\<close>

type_synonym segment = "string option"

text \<open>The \<open>prefix\<close> option of \<open>create\<close>: each entry a string or absent.\<close>

record prefix_opts =
  p_global :: "string option"
  p_local :: "string option"
  p_root :: "string option"

text \<open>
  The options of \<open>create\<close>. \<open>None\<close> is an absent key (for \<open>adjust\<close>, \<open>iterables\<close> and
  \<open>map\<close> also the default \<open>null\<close>); \<open>separator\<close> tells an absent key, which takes the
  default \<open>'.'\<close>, from an explicit \<open>undefined\<close> or \<open>false\<close>, which do not.
\<close>

record create_opts =
  o_adjust :: "(jsval \<Rightarrow> jsval) option"
  o_ancestor :: "ancestor_val option"
  o_iterables :: "bool option"
  o_map :: "(jsval \<times> jsval) list option"
  o_prefix :: "prefix_opts option"
  o_separator :: "separator_val option"

text \<open>What the constructor copies from its argument, after the defaults are merged in.\<close>

record ref_init =
  i_adjust :: "(jsval \<Rightarrow> jsval) option"
  i_ancestor :: "ancestor_val option"
  i_iterables :: "bool option"
  i_map :: "(jsval \<times> jsval) list option"
  i_path :: "segment list"
  i_separator :: separator_val
  i_type :: ref_type

text \<open>A reference object.\<close>

record ref =
  adjust :: "(jsval \<Rightarrow> jsval) option"
  ancestor :: "ancestor_val option"
  iterables :: "bool option"
  map_r :: "js_map option"
  path :: "segment list"
  separator :: separator_val
  type :: ref_type
  depth :: nat
  key :: "string option"
  root :: "segment option"
  display :: string

text \<open>The descriptor \<open>describe\<close> produces (inside \<open>{ ref: ... }\<close>) and \<open>build\<close> reads.\<close>

record ref_desc =
  d_path :: "segment list"
  d_type :: "ref_type option"
  d_separator :: "separator_val option"
  d_ancestor :: "ancestor_val option"
  d_map :: "(jsval \<times> jsval) list option"
  d_adjust :: "(jsval \<Rightarrow> jsval) option"
  d_iterables :: "bool option"

text \<open>
  The validation state as \<open>resolve\<close> reads it: the ancestors, and the shadow of
  \<open>state.mainstay\<close> when there is one (its \<open>get\<close>, from a path to a value).
\<close>

record vstate =
  ancestors :: "jsval list"
  shadow :: "(segment list \<Rightarrow> jsval) option"

record prefs =
  prefs_context :: jsval
  prefs_convert :: bool

text \<open>The \<open>options\<close> of \<open>resolve\<close>: whether \<open>options.shadow\<close> is \<open>false\<close>.\<close>

record resolve_opts =
  shadow_off :: bool

subsection \<open>Parsing a key: \<open>internals.context\<close>, \<open>internals.ancestor\<close>, \<open>create\<close>\<close>

definition sep_truthy :: "separator_val \<Rightarrow> bool" where
  "sep_truthy s = (case s of SepChar _ \<Rightarrow> True | _ \<Rightarrow> False)"

text \<open>\<open>key[i] === separator\<close>.\<close>

definition char_at_is :: "string \<Rightarrow> nat \<Rightarrow> separator_val \<Rightarrow> bool" where
  "char_at_is k i s = (i < length k \<and> s = SepChar (k ! i))"

text \<open>\<open>prefix.global || '$'\<close>: an absent or empty prefix takes the default.\<close>

definition prefix_or :: "string option \<Rightarrow> string \<Rightarrow> string" where
  "prefix_or p d = (case p of None \<Rightarrow> d | Some s \<Rightarrow> (if s = [] then d else s))"

record key_context =
  c_key :: string
  c_type :: ref_type
  c_root :: bool

definition ref_context :: "string \<Rightarrow> prefix_opts option \<Rightarrow> key_context" where
  "ref_context key0 prefix0 =
     (let prefix = (case prefix0 of
                      None \<Rightarrow> \<lparr>p_global = None, p_local = None, p_root = None\<rparr>
                    | Some p \<Rightarrow> p);
          key = js_trim key0;
          globalp = prefix_or (p_global prefix) ''$'';
          local = prefix_or (p_local prefix) ''#'';
          root = prefix_or (p_root prefix) ''/''
      in if starts_with key globalp then
           \<lparr>c_key = drop (length globalp) key, c_type = TGlobal, c_root = False\<rparr>
         else if starts_with key local then
           \<lparr>c_key = drop (length local) key, c_type = TLocal, c_root = False\<rparr>
         else if starts_with key root then
           \<lparr>c_key = drop (length root) key, c_type = TValue, c_root = True\<rparr>
         else \<lparr>c_key = key, c_type = TValue, c_root = False\<rparr>)"

text \<open>The loop \<open>while (key[i] === separator) ++i\<close>.\<close>

function skip_separators :: "string \<Rightarrow> separator_val \<Rightarrow> nat \<Rightarrow> nat" where
  "skip_separators k s i = (if char_at_is k i s then skip_separators k s (Suc i) else i)"
  by pat_completeness auto
termination
  by (relation "measure (\<lambda>(k, s, i). length k - i)") (auto simp: char_at_is_def)

declare skip_separators.simps [simp del]

text \<open>\<open>internals.ancestor\<close>: the ancestor depth and the number of characters to drop.\<close>

definition internals_ancestor :: "string \<Rightarrow> separator_val \<Rightarrow> int \<times> nat" where
  "internals_ancestor k s =
     (if \<not> sep_truthy s then (1, 0)
      else if \<not> char_at_is k 0 s then (1, 0)
      else if \<not> char_at_is k 1 s then (0, 1)
      else (let i = skip_separators k s 2 in (int i - 1, i)))"

subsection \<open>The constructor\<close>

text \<open>\<open>path.join(separator)\<close>: \<open>null\<close> joins as the empty string; an undefined separator
  is a comma, \<open>false\<close> is the text \<open>false\<close>.\<close>

definition sep_text :: "separator_val \<Rightarrow> string" where
  "sep_text s = (case s of SepChar c \<Rightarrow> [c] | SepUndefined \<Rightarrow> '','' | SepFalse \<Rightarrow> ''false'')"

definition seg_text :: "segment \<Rightarrow> string" where
  "seg_text g = (case g of None \<Rightarrow> [] | Some s \<Rightarrow> s)"

fun js_join :: "string \<Rightarrow> string list \<Rightarrow> string" where
  "js_join s [] = []"
| "js_join s [x] = x"
| "js_join s (x # y # ys) = x @ s @ js_join s (y # ys)"

definition type_text :: "ref_type \<Rightarrow> string" where
  "type_text t = (case t of TValue \<Rightarrow> ''value'' | TGlobal \<Rightarrow> ''global'' | TLocal \<Rightarrow> ''local'')"

text \<open>A key inside a template literal: \<open>null\<close> prints as \<open>null\<close>.\<close>

definition key_text :: "string option \<Rightarrow> string" where
  "key_text k = (case k of None \<Rightarrow> ''null'' | Some s \<Rightarrow> s)"

text \<open>\<open>!this.ancestor\<close>: undefined and 0 are falsy, \<open>'root'\<close> and other numbers are not.\<close>

definition ancestor_falsy :: "ancestor_val option \<Rightarrow> bool" where
  "ancestor_falsy a = (a = None \<or> a = Some (Depth 0))"

text \<open>\<open>updateDisplay\<close>. \<open>new Array(n)\<close> throws unless \<open>0 \<le> n < 2^32\<close>.\<close>

definition updateDisplay ::
  "ref_type \<Rightarrow> separator_val \<Rightarrow> ancestor_val option \<Rightarrow> string option \<Rightarrow> error + string" where
  "updateDisplay t s a k =
     (if t \<noteq> TValue then Inr (''ref:'' @ type_text t @ '':'' @ key_text k)
      else if \<not> sep_truthy s then Inr (''ref:'' @ key_text k)
      else if ancestor_falsy a then Inr (''ref:'' @ sep_text s @ key_text k)
      else if a = Some Root then Inr (''ref:root:'' @ key_text k)
      else if a = Some (Depth 1) then Inr (''ref:'' @ key_text k)
      else (case a of
              Some (Depth n) \<Rightarrow>
                (if n + 1 < 0 \<or> 4294967295 < n + 1 then Inl (RangeError ''Invalid array length'')
                 else Inr (''ref:'' @ concat (replicate (nat (n + 1)) (sep_text s))
                             @ (case k of None \<Rightarrow> [] | Some x \<Rightarrow> x)))
            | _ \<Rightarrow> Inr []))"

definition new_Ref :: "ref_init \<Rightarrow> error + ref" where
  "new_Ref options =
     (if i_map options \<noteq> None \<and> i_adjust options \<noteq> None then
        Inl (AssertError ''Cannot set both map and adjust options'')
      else if \<not> (i_type options = TValue \<or> i_ancestor options = None) then
        Inl (AssertError ''Non-value references cannot reference ancestors'')
      else
        (let p = i_path options;
             k = (if p = [] then None
                  else Some (js_join (sep_text (i_separator options)) (map seg_text p)))
         in case updateDisplay (i_type options) (i_separator options) (i_ancestor options) k of
              Inl e \<Rightarrow> Inl e
            | Inr d \<Rightarrow>
                Inr \<lparr>adjust = i_adjust options,
                     ancestor = i_ancestor options,
                     iterables = i_iterables options,
                     map_r = map_option map_new (i_map options),
                     path = p,
                     separator = i_separator options,
                     type = i_type options,
                     depth = length p,
                     key = k,
                     root = (case p of [] \<Rightarrow> None | g # _ \<Rightarrow> Some g),
                     display = d\<rparr>))"

subsection \<open>\<open>create\<close>\<close>

definition create :: "string \<Rightarrow> create_opts \<Rightarrow> error + ref" where
  "create key0 options =
     (let separator = (case o_separator options of None \<Rightarrow> SepChar CHR ''.'' | Some s \<Rightarrow> s);
          ctx = ref_context key0 (o_prefix options);
          t = c_type ctx;
          key1 = c_key ctx;
          fin = (\<lambda>(k :: string option) a.
                   new_Ref \<lparr>i_adjust = o_adjust options,
                            i_ancestor = a,
                            i_iterables = o_iterables options,
                            i_map = o_map options,
                            i_path = (case separator of
                                        SepChar c \<Rightarrow>
                                          (case k of None \<Rightarrow> [] | Some s \<Rightarrow> map Some (js_split c s))
                                      | _ \<Rightarrow> [k]),
                            i_separator = separator,
                            i_type = t\<rparr>)
      in if t \<noteq> TValue then fin (Some key1) (o_ancestor options)
         else if c_root ctx \<and> sep_truthy separator \<and> char_at_is key1 0 separator then
           Inl (AssertError ''Cannot specify relative path with root prefix'')
         else
           (let a1 = (if c_root ctx then Some Root else o_ancestor options);
                key2 = (if c_root ctx \<and> key1 = [] then None else Some key1)
            in if sep_truthy separator \<and> key2 = Some (sep_text separator) then
                 fin None (Some (Depth 0))
               else if a1 \<noteq> None then
                 (if sep_truthy separator \<and> key2 \<noteq> None \<and> key2 \<noteq> Some []
                       \<and> char_at_is key1 0 separator then
                    Inl (AssertError ''Cannot combine prefix with ancestor option'')
                  else fin key2 a1)
               else
                 (case internals_ancestor key1 separator of
                    (a, slice) \<Rightarrow>
                      (let key3 = (if slice \<noteq> 0
                                   then (if drop slice key1 = [] then None
                                         else Some (drop slice key1))
                                   else Some key1)
                       in fin key3 (Some (Depth a))))))"

subsection \<open>\<open>resolve\<close>\<close>

text \<open>
  \<open>Hoek.reach(target, path, { iterables, functions: true })\<close> is a function of another
  package: the model takes it as the parameter \<open>reach\<close>.
\<close>

type_synonym reach_fn = "jsval \<Rightarrow> segment list \<Rightarrow> bool option \<Rightarrow> jsval"

definition resolve_inner ::
  "reach_fn \<Rightarrow> ref \<Rightarrow> jsval \<Rightarrow> vstate \<Rightarrow> resolve_opts \<Rightarrow> jsval" where
  "resolve_inner reach r target state options =
     (let resolved0 = (case shadow state of
                         Some get \<Rightarrow>
                           (if type r = TValue \<and> \<not> shadow_off options then get (path r)
                            else JUndefined)
                       | None \<Rightarrow> JUndefined);
          resolved1 = (if resolved0 = JUndefined then reach target (path r) (iterables r)
                       else resolved0);
          resolved2 = (case adjust r of Some f \<Rightarrow> f resolved1 | None \<Rightarrow> resolved1)
      in case map_r r of
           Some m \<Rightarrow>
             (let mapped = map_get m resolved2
              in if mapped \<noteq> JUndefined then mapped else resolved2)
         | None \<Rightarrow> resolved2)"

definition resolve ::
  "reach_fn \<Rightarrow> ref \<Rightarrow> jsval \<Rightarrow> vstate \<Rightarrow> prefs \<Rightarrow> jsval \<Rightarrow> resolve_opts \<Rightarrow> error + jsval" where
  "resolve reach r v state prefs local options =
     (if type r = TGlobal then Inr (resolve_inner reach r (prefs_context prefs) state options)
      else if type r = TLocal then Inr (resolve_inner reach r local state options)
      else if ancestor_falsy (ancestor r) then Inr (resolve_inner reach r v state options)
      else (case ancestor r of
              Some Root \<Rightarrow>
                Inr (resolve_inner reach r
                       (js_index (ancestors state) (int (length (ancestors state)) - 1))
                       state options)
            | Some (Depth n) \<Rightarrow>
                (if n \<le> int (length (ancestors state)) then
                   Inr (resolve_inner reach r (js_index (ancestors state) (n - 1)) state options)
                 else Inl (AssertError ''Invalid reference exceeds the schema root''))
            | None \<Rightarrow> Inr (resolve_inner reach r v state options)))"

text \<open>
  The steps of \<open>_resolve\<close> by themselves: what the shadow holds for the path of a value
  reference (\<open>undefined\<close> where it is not consulted), and the \<open>adjust\<close> function and the
  map applied to what was read.
\<close>

definition shadow_value :: "ref \<Rightarrow> vstate \<Rightarrow> resolve_opts \<Rightarrow> jsval" where
  "shadow_value r state options =
     (case shadow state of
        Some get \<Rightarrow>
          (if type r = TValue \<and> \<not> shadow_off options then get (path r) else JUndefined)
      | None \<Rightarrow> JUndefined)"

definition adjust_map :: "ref \<Rightarrow> jsval \<Rightarrow> jsval" where
  "adjust_map r resolved =
     (let resolved2 = (case adjust r of Some f \<Rightarrow> f resolved | None \<Rightarrow> resolved)
      in case map_r r of
           Some m \<Rightarrow>
             (let mapped = map_get m resolved2
              in if mapped \<noteq> JUndefined then mapped else resolved2)
         | None \<Rightarrow> resolved2)"

text \<open>The assertion of \<open>resolve\<close>: a numeric depth above the number of ancestors.\<close>

definition exceeds_root :: "ref \<Rightarrow> vstate \<Rightarrow> bool" where
  "exceeds_root r state =
     (case ancestor r of
        Some (Depth n) \<Rightarrow> type r = TValue \<and> int (length (ancestors state)) < n
      | _ \<Rightarrow> False)"

text \<open>
  \<open>resolve\<close> and \<open>_resolve\<close> once more, with their effects written out. \<open>'w\<close> is the state of
  everything that can be assigned to, the target data included. The two methods assign
  to nothing but their local \<open>resolved\<close>; they call \<open>Hoek.reach\<close> and the \<open>adjust\<close> function of
  the reference, which are not code of this repository and are given here as functions
  that return a value and the state they leave. (\<open>shadow.get\<close> and \<open>Map.prototype.get\<close> are
  reads.)
\<close>

type_synonym 'w reach_io = "jsval \<Rightarrow> segment list \<Rightarrow> bool option \<Rightarrow> 'w \<Rightarrow> jsval \<times> 'w"

type_synonym 'w adjust_io = "jsval \<Rightarrow> 'w \<Rightarrow> jsval \<times> 'w"

definition resolve_inner_io ::
  "'w reach_io \<Rightarrow> 'w adjust_io \<Rightarrow> ref \<Rightarrow> jsval \<Rightarrow> vstate \<Rightarrow> resolve_opts \<Rightarrow> 'w \<Rightarrow> jsval \<times> 'w" where
  "resolve_inner_io reach adj r target state options w =
     (let resolved0 = (case shadow state of
                         Some get \<Rightarrow>
                           (if type r = TValue \<and> \<not> shadow_off options then get (path r)
                            else JUndefined)
                       | None \<Rightarrow> JUndefined)
      in case (if resolved0 = JUndefined then reach target (path r) (iterables r) w
               else (resolved0, w)) of
           (resolved1, w1) \<Rightarrow>
             (case (case adjust r of Some f \<Rightarrow> adj resolved1 w1 | None \<Rightarrow> (resolved1, w1)) of
                (resolved2, w2) \<Rightarrow>
                  (case map_r r of
                     Some m \<Rightarrow>
                       (let mapped = map_get m resolved2
                        in if mapped \<noteq> JUndefined then (mapped, w2) else (resolved2, w2))
                   | None \<Rightarrow> (resolved2, w2))))"

definition resolve_io ::
  "'w reach_io \<Rightarrow> 'w adjust_io \<Rightarrow> ref \<Rightarrow> jsval \<Rightarrow> vstate \<Rightarrow> prefs \<Rightarrow> jsval \<Rightarrow> resolve_opts
   \<Rightarrow> 'w \<Rightarrow> error + jsval \<times> 'w" where
  "resolve_io reach adj r v state prefs local options w =
     (if type r = TGlobal then
        Inr (resolve_inner_io reach adj r (prefs_context prefs) state options w)
      else if type r = TLocal then Inr (resolve_inner_io reach adj r local state options w)
      else if ancestor_falsy (ancestor r) then
        Inr (resolve_inner_io reach adj r v state options w)
      else (case ancestor r of
              Some Root \<Rightarrow>
                Inr (resolve_inner_io reach adj r
                       (js_index (ancestors state) (int (length (ancestors state)) - 1))
                       state options w)
            | Some (Depth n) \<Rightarrow>
                (if n \<le> int (length (ancestors state)) then
                   Inr (resolve_inner_io reach adj r (js_index (ancestors state) (n - 1))
                          state options w)
                 else Inl (AssertError ''Invalid reference exceeds the schema root''))
            | None \<Rightarrow> Inr (resolve_inner_io reach adj r v state options w)))"

subsection \<open>\<open>describe\<close> and \<open>build\<close>\<close>

definition describe :: "ref \<Rightarrow> ref_desc" where
  "describe r =
     \<lparr>d_path = path r,
      d_type = (if type r \<noteq> TValue then Some (type r) else None),
      d_separator = (if separator r \<noteq> SepChar CHR ''.'' then Some (separator r) else None),
      d_ancestor = (if type r = TValue \<and> ancestor r \<noteq> Some (Depth 1) then ancestor r else None),
      d_map = map_option map_entries (map_r r),
      d_adjust = adjust r,
      d_iterables = iterables r\<rparr>"

definition build :: "ref_desc \<Rightarrow> error + ref" where
  "build desc =
     (let t = (case d_type desc of None \<Rightarrow> TValue | Some t \<Rightarrow> t);
          a = (if t = TValue \<and> d_ancestor desc = None then Some (Depth 1) else d_ancestor desc)
      in new_Ref \<lparr>i_adjust = d_adjust desc,
                  i_ancestor = a,
                  i_iterables = d_iterables desc,
                  i_map = d_map desc,
                  i_path = d_path desc,
                  i_separator = (case d_separator desc of None \<Rightarrow> SepChar CHR ''.'' | Some s \<Rightarrow> s),
                  i_type = t\<rparr>)"


text \<open>The default \<open>options = {}\<close> of \<open>create\<close>.\<close>

definition no_options :: create_opts where
  "no_options = \<lparr>o_adjust = None, o_ancestor = None, o_iterables = None, o_map = None,
                  o_prefix = None, o_separator = None\<rparr>"

text \<open>
  The target the specification names for each kind of reference: the context for a
  global one, the local map for a local one, and for a value reference the value itself
  at depth zero, the last element of the ancestors for the root, and the ancestor at
  index \<open>N - 1\<close> for depth \<open>N\<close>.
\<close>

definition resolve_target :: "ref \<Rightarrow> jsval \<Rightarrow> vstate \<Rightarrow> prefs \<Rightarrow> jsval \<Rightarrow> jsval" where
  "resolve_target r v state prefs local =
     (case type r of
        TGlobal \<Rightarrow> prefs_context prefs
      | TLocal \<Rightarrow> local
      | TValue \<Rightarrow>
          (case ancestor r of
             None \<Rightarrow> v
           | Some Root \<Rightarrow> (if ancestors state = [] then JUndefined else last (ancestors state))
           | Some (Depth n) \<Rightarrow> (if n = 0 then v else js_index (ancestors state) (n - 1))))"

text \<open>
  A reader of plain objects, standing for \<open>Hoek.reach\<close> where an example is evaluated:
  it follows the path through nested objects and yields \<open>undefined\<close> at a missing key.
\<close>

fun reach_plain :: reach_fn where
  "reach_plain v [] it = v"
| "reach_plain (JObj i kvs) (Some k # ks) it =
     (case map_of kvs k of None \<Rightarrow> JUndefined | Some x \<Rightarrow> reach_plain x ks it)"
| "reach_plain _ _ it = JUndefined"

text \<open>The reference \<open>create('...x')\<close> returns.\<close>

definition grandparent_x :: ref where
  "grandparent_x =
     \<lparr>adjust = None, ancestor = Some (Depth 2), iterables = None, map_r = None,
      path = [Some ''x''], separator = SepChar CHR ''.'', type = TValue, depth = 1,
      key = Some ''x'', root = Some (Some ''x''), display = ''ref:...x''\<rparr>"

text \<open>
  A state of three ancestors, the same with a shadow that holds 99 for every path, and
  preferences with no context. Stand-ins for \<open>Hoek.reach\<close> and \<open>adjust\<close> with their effect
  on a state that counts: the reader of plain objects and an \<open>adjust\<close> that leave it as it
  is, and an \<open>adjust\<close> that adds one to it; the reference of \<open>...x\<close> with an \<open>adjust\<close> function.
\<close>

definition three_ancestors :: vstate where
  "three_ancestors =
     \<lparr>ancestors = [JObj 1 [(''x'', JNum 1)], JObj 2 [(''x'', JNum 7)], JObj 3 [(''x'', JNum 9)]],
      shadow = None\<rparr>"

definition shadowed_ancestors :: vstate where
  "shadowed_ancestors = three_ancestors\<lparr>shadow := Some (\<lambda>p. JNum 99)\<rparr>"

definition no_prefs :: prefs where
  "no_prefs = \<lparr>prefs_context = JUndefined, prefs_convert = True\<rparr>"

definition reach_plain_io :: "nat reach_io" where
  "reach_plain_io t p i w = (reach_plain t p i, w)"

definition keep_io :: "nat adjust_io" where
  "keep_io x w = (x, w)"

definition count_io :: "nat adjust_io" where
  "count_io x w = (x, Suc w)"

definition adjusted_x :: ref where
  "adjusted_x = grandparent_x\<lparr>adjust := Some (\<lambda>x. x)\<rparr>"

text \<open>A descriptor with a map that names the key 1 twice, and the reference built from it.\<close>

definition mapped_desc :: ref_desc where
  "mapped_desc =
     \<lparr>d_path = [Some ''a'', Some ''b''], d_type = Some TGlobal, d_separator = Some SepFalse,
      d_ancestor = None,
      d_map = Some [(JNum 1, JStr ''x''), (JNum 2, JStr ''y''), (JNum 1, JStr ''z'')],
      d_adjust = None, d_iterables = Some True\<rparr>"

definition mapped_ref :: ref where
  "mapped_ref =
     \<lparr>adjust = None, ancestor = None, iterables = Some True,
      map_r = Some [(JNum 1, JStr ''z''), (JNum 2, JStr ''y'')],
      path = [Some ''a'', Some ''b''], separator = SepFalse, type = TGlobal, depth = 2,
      key = Some ''afalseb'', root = Some (Some ''a''), display = ''ref:global:afalseb''\<rparr>"

text \<open>No two keys of a Map are the same value: the invariant of \<open>map_set\<close>.\<close>

fun keys_distinct :: "js_map \<Rightarrow> bool" where
  "keys_distinct [] = True"
| "keys_distinct ((k, v) # m) =
     ((\<forall>e \<in> set m. \<not> same_value_zero k (fst e)) \<and> keys_distinct m)"

subsection \<open>Parsing \<open>...x\<close>\<close>

lemma nat_int_pred: "nat (int n - 1) = n - 1"
  by arith

lemma context_dots:
  "ref_context ''...x'' None = \<lparr>c_key = ''...x'', c_type = TValue, c_root = False\<rparr>"
  by code_simp

lemma ancestor_dots: "internals_ancestor ''...x'' (SepChar CHR ''.'') = (2, 3)"
  by code_simp

lemma create_dots:
  assumes sep: "o_separator opts = None \<or> o_separator opts = Some (SepChar CHR ''.'')"
    and pre: "o_prefix opts = None"
    and ok: "create ''...x'' opts = Inr r"
  shows "ancestor r = Some (Depth 2) \<and> path r = [Some ''x''] \<and> type r = TValue"
proof -
  have s: "(case o_separator opts of None \<Rightarrow> SepChar CHR ''.'' | Some s \<Rightarrow> s) = SepChar CHR ''.''"
    using sep by auto
  have anc: "o_ancestor opts = None"
  proof (rule ccontr)
    assume "o_ancestor opts \<noteq> None"
    then have "create ''...x'' opts
               = Inl (AssertError ''Cannot combine prefix with ancestor option'')"
      unfolding create_def s pre context_dots
      by (simp add: sep_truthy_def sep_text_def char_at_is_def)
    with ok show False by simp
  qed
  have "create ''...x'' opts =
          new_Ref \<lparr>i_adjust = o_adjust opts, i_ancestor = Some (Depth 2),
                   i_iterables = o_iterables opts, i_map = o_map opts,
                   i_path = [Some ''x''], i_separator = SepChar CHR ''.'', i_type = TValue\<rparr>"
    unfolding create_def s pre context_dots
    by (simp add: anc ancestor_dots sep_truthy_def sep_text_def char_at_is_def)
  with ok show ?thesis
    by (auto simp: new_Ref_def Let_def split: if_splits sum.splits)
qed

lemma create_grandparent_x: "create ''...x'' no_options = Inr grandparent_x"
  unfolding create_def no_options_def
  by (simp add: context_dots ancestor_dots sep_truthy_def sep_text_def char_at_is_def
      new_Ref_def updateDisplay_def ancestor_falsy_def seg_text_def grandparent_x_def
      Let_def numeral_3_eq_3)

lemma resolve_exceeds:
  assumes "type r = TValue" and "ancestor r = Some (Depth n)"
    and "int (length (ancestors st)) < n"
  shows "resolve reach r v st prefs local ro
         = Inl (AssertError ''Invalid reference exceeds the schema root'')"
  using assms by (auto simp: resolve_def ancestor_falsy_def)

lemma resolve_depth:
  assumes "type r = TValue" and "ancestor r = Some (Depth n)" and "0 < n"
    and "n \<le> int (length (ancestors st))"
  shows "resolve reach r v st prefs local ro
         = Inr (resolve_inner reach r (ancestors st ! nat (n - 1)) st ro)"
  using assms by (auto simp: resolve_def ancestor_falsy_def js_index_def)

text \<open>
  C1. A reference created from the key \<open>...x\<close> with the separator \<open>.\<close> (given or by
  default, with the default prefixes) has ancestor depth 2 and path \<open>[x]\<close>, and \<open>resolve\<close>
  reads that path from \<open>state.ancestors[1]\<close>; and \<open>resolve\<close> on any value reference whose
  numeric depth is larger than the number of ancestors throws 'Invalid reference exceeds
  the schema root' instead of returning a value.
\<close>

theorem ancestor_arithmetic:
  "(\<forall>opts r.
      (o_separator opts = None \<or> o_separator opts = Some (SepChar CHR ''.''))
      \<and> o_prefix opts = None \<and> create ''...x'' opts = Inr r \<longrightarrow>
      ancestor r = Some (Depth 2) \<and> path r = [Some ''x''] \<and>
      (\<forall>reach v st prefs local ro.
         resolve reach r v st prefs local ro =
           (if 2 \<le> length (ancestors st)
            then Inr (resolve_inner reach r (ancestors st ! 1) st ro)
            else Inl (AssertError ''Invalid reference exceeds the schema root''))))
   \<and> (\<forall>reach r n v st prefs local ro.
        type r = TValue \<and> ancestor r = Some (Depth n) \<and> int (length (ancestors st)) < n \<longrightarrow>
        resolve reach r v st prefs local ro
          = Inl (AssertError ''Invalid reference exceeds the schema root''))"
proof (intro conjI allI impI)
  fix opts :: create_opts and r :: ref
  assume h: "(o_separator opts = None \<or> o_separator opts = Some (SepChar CHR ''.''))
             \<and> o_prefix opts = None \<and> create ''...x'' opts = Inr r"
  then have f: "ancestor r = Some (Depth 2)" "path r = [Some ''x'']" "type r = TValue"
    using create_dots [of opts r] by simp_all
  show "ancestor r = Some (Depth 2)" by (rule f)
  show "path r = [Some ''x'']" by (rule f)
  fix reach :: reach_fn and v and st :: vstate and prefs :: prefs and local ro
  show "resolve reach r v st prefs local ro =
          (if 2 \<le> length (ancestors st)
           then Inr (resolve_inner reach r (ancestors st ! 1) st ro)
           else Inl (AssertError ''Invalid reference exceeds the schema root''))"
  proof (cases "2 \<le> length (ancestors st)")
    case True
    then show ?thesis
      using resolve_depth [OF f(3) f(1), of st reach v prefs local ro] by simp
  next
    case False
    then show ?thesis
      using resolve_exceeds [OF f(3) f(1), of st reach v prefs local ro] by simp
  qed
next
  fix reach :: reach_fn and r :: ref and n v and st :: vstate
    and prefs :: prefs and local ro
  assume "type r = TValue \<and> ancestor r = Some (Depth n) \<and> int (length (ancestors st)) < n"
  then show "resolve reach r v st prefs local ro
             = Inl (AssertError ''Invalid reference exceeds the schema root'')"
    using resolve_exceeds by blast
qed

theorem ancestor_arithmetic_witness:
  "create ''...x'' no_options = Inr grandparent_x
   \<and> ancestor grandparent_x = Some (Depth 2)
   \<and> path grandparent_x = [Some ''x'']
   \<and> resolve reach_plain grandparent_x (JNum 0)
        \<lparr>ancestors = [JObj 1 [(''x'', JNum 1)], JObj 2 [(''x'', JNum 7)]], shadow = None\<rparr>
        \<lparr>prefs_context = JUndefined, prefs_convert = True\<rparr> JUndefined \<lparr>shadow_off = False\<rparr> = Inr (JNum 7)
   \<and> resolve reach_plain grandparent_x (JNum 0)
        \<lparr>ancestors = [JObj 1 [(''x'', JNum 1)]], shadow = None\<rparr>
        \<lparr>prefs_context = JUndefined, prefs_convert = True\<rparr> JUndefined \<lparr>shadow_off = False\<rparr>
       = Inl (AssertError ''Invalid reference exceeds the schema root'')"
proof -
  have c: "(o_separator no_options = None \<or> o_separator no_options = Some (SepChar CHR ''.''))
           \<and> o_prefix no_options = None \<and> create ''...x'' no_options = Inr grandparent_x"
    by (simp add: create_grandparent_x) (simp add: no_options_def)
  from ancestor_arithmetic c have
    a: "ancestor grandparent_x = Some (Depth 2) \<and> path grandparent_x = [Some ''x''] \<and>
        (\<forall>reach v st prefs local ro.
           resolve reach grandparent_x v st prefs local ro =
             (if 2 \<le> length (ancestors st)
              then Inr (resolve_inner reach grandparent_x (ancestors st ! 1) st ro)
              else Inl (AssertError ''Invalid reference exceeds the schema root'')))"
    by blast
  have i: "resolve_inner reach_plain grandparent_x (JObj 2 [(''x'', JNum 7)])
             \<lparr>ancestors = [JObj 1 [(''x'', JNum 1)], JObj 2 [(''x'', JNum 7)]], shadow = None\<rparr>
             \<lparr>shadow_off = False\<rparr> = JNum 7"
    by (simp add: resolve_inner_def grandparent_x_def)
  show ?thesis
    using a c i by simp
qed


subsection \<open>Which target \<open>resolve\<close> reads\<close>

lemma resolve_cases:
  "resolve reach r v st prefs local ro =
     (if type r = TValue \<and> (\<exists>n. ancestor r = Some (Depth n) \<and> int (length (ancestors st)) < n)
      then Inl (AssertError ''Invalid reference exceeds the schema root'')
      else Inr (resolve_inner reach r (resolve_target r v st prefs local) st ro))"
proof (cases "type r")
  case TGlobal
  then show ?thesis by (simp add: resolve_def resolve_target_def)
next
  case TLocal
  then show ?thesis by (simp add: resolve_def resolve_target_def)
next
  case TValue
  show ?thesis
  proof (cases "ancestor r")
    case None
    with TValue show ?thesis
      by (simp add: resolve_def resolve_target_def ancestor_falsy_def)
  next
    case (Some a)
    with TValue show ?thesis
      by (cases a)
        (auto simp: resolve_def resolve_target_def ancestor_falsy_def js_index_def
          last_conv_nth nat_int_pred)
  qed
qed

lemma exceeds_root_iff:
  "exceeds_root r st
     = (type r = TValue \<and> (\<exists>n. ancestor r = Some (Depth n) \<and> int (length (ancestors st)) < n))"
  by (auto simp: exceeds_root_def split: option.splits ancestor_val.splits)

lemma resolve_inner_reads:
  "resolve_inner reach r target st ro =
     adjust_map r (if shadow_value r st ro = JUndefined then reach target (path r) (iterables r)
                   else shadow_value r st ro)"
  unfolding resolve_inner_def adjust_map_def shadow_value_def Let_def by (rule refl)

text \<open>With a \<open>Hoek.reach\<close> and an \<open>adjust\<close> that leave the state as it is, the two readings
  of \<open>resolve\<close> agree.\<close>

lemma resolve_inner_io_pure:
  "resolve_inner_io (\<lambda>t p i w. (reach t p i, w))
       (\<lambda>x w. (case adjust r of Some f \<Rightarrow> f x | None \<Rightarrow> x, w)) r target st ro w
     = (resolve_inner reach r target st ro, w)"
  by (simp add: resolve_inner_io_def resolve_inner_def Let_def split: option.splits)

lemma resolve_io_pure:
  "resolve_io (\<lambda>t p i w. (reach t p i, w))
       (\<lambda>x w. (case adjust r of Some f \<Rightarrow> f x | None \<Rightarrow> x, w)) r v st prefs local ro w
     = (case resolve reach r v st prefs local ro of Inl e \<Rightarrow> Inl e | Inr x \<Rightarrow> Inr (x, w))"
  by (simp add: resolve_io_def resolve_def resolve_inner_io_pure
      split: option.splits ancestor_val.splits)

lemma resolve_inner_io_world:
  assumes "\<And>t p i w. snd (reach t p i w) = w" and "\<And>x w. snd (adj x w) = w"
  shows "snd (resolve_inner_io reach adj r target st ro w) = w"
proof -
  have a: "reach t p i w = (fst (reach t p i w), w)" for t p i w
    using assms(1) [of t p i w] by (cases "reach t p i w") simp
  have b: "adj x w = (fst (adj x w), w)" for x w
    using assms(2) [of x w] by (cases "adj x w") simp
  show ?thesis
    unfolding resolve_inner_io_def Let_def
    by (subst a, subst b) (simp split: option.splits)
qed

lemma resolve_io_world:
  assumes "\<And>t p i w. snd (reach t p i w) = w" and "\<And>x w. snd (adj x w) = w"
  shows "case resolve_io reach adj r v st prefs local ro w of
           Inl e \<Rightarrow> True | Inr res \<Rightarrow> snd res = w"
  by (simp add: resolve_io_def resolve_inner_io_world [OF assms]
      split: option.splits ancestor_val.splits)

text \<open>
  C2, as amended. \<open>resolve\<close> throws for a value reference whose depth exceeds the number of
  ancestors. Otherwise it returns what it reads at the path of the reference in the
  target of the reference's kind (\<open>prefs.context\<close> for a global reference, the local map
  for a local one, the value for a value reference of depth 0, the last ancestor for a
  root reference, \<open>state.ancestors[N - 1]\<close> for depth \<open>N\<close>), or, for a value reference whose
  path the shadow of the state holds a value for, that value; in both cases after the
  \<open>adjust\<close> function and the map of the reference. \<open>resolve\<close> leaves the state of the data as
  \<open>Hoek.reach\<close> and \<open>adjust\<close> leave it: unchanged whenever they do not change it, and then
  with the value the first part states.
\<close>

theorem resolve_reads_target:
  "resolve reach r v st prefs local ro =
     (if exceeds_root r st then Inl (AssertError ''Invalid reference exceeds the schema root'')
      else Inr (adjust_map r
                  (if shadow_value r st ro = JUndefined
                   then reach (resolve_target r v st prefs local) (path r) (iterables r)
                   else shadow_value r st ro)))
   \<and> ((\<forall>t p i w. snd (reach_io t p i w) = w) \<and> (\<forall>x w. snd (adjust_io x w) = w) \<longrightarrow>
        (case resolve_io reach_io adjust_io r v st prefs local ro w of
           Inl e \<Rightarrow> True | Inr res \<Rightarrow> snd res = w))
   \<and> resolve_io (\<lambda>t p i w. (reach t p i, w))
        (\<lambda>x w. (case adjust r of Some f \<Rightarrow> f x | None \<Rightarrow> x, w)) r v st prefs local ro w
       = (case resolve reach r v st prefs local ro of Inl e \<Rightarrow> Inl e | Inr x \<Rightarrow> Inr (x, w))"
proof (intro conjI impI)
  show "resolve reach r v st prefs local ro =
     (if exceeds_root r st then Inl (AssertError ''Invalid reference exceeds the schema root'')
      else Inr (adjust_map r
                  (if shadow_value r st ro = JUndefined
                   then reach (resolve_target r v st prefs local) (path r) (iterables r)
                   else shadow_value r st ro)))"
    unfolding exceeds_root_iff resolve_inner_reads [symmetric] by (rule resolve_cases)
next
  assume "(\<forall>t p i w. snd (reach_io t p i w) = w) \<and> (\<forall>x w. snd (adjust_io x w) = w)"
  then show "case resolve_io reach_io adjust_io r v st prefs local ro w of
           Inl e \<Rightarrow> True | Inr res \<Rightarrow> snd res = w"
    by (intro resolve_io_world) simp_all
next
  show "resolve_io (\<lambda>t p i w. (reach t p i, w))
        (\<lambda>x w. (case adjust r of Some f \<Rightarrow> f x | None \<Rightarrow> x, w)) r v st prefs local ro w
       = (case resolve reach r v st prefs local ro of Inl e \<Rightarrow> Inl e | Inr x \<Rightarrow> Inr (x, w))"
    by (rule resolve_io_pure)
qed

theorem resolve_reads_target_witness:
  "resolve reach_plain grandparent_x (JNum 0) three_ancestors no_prefs JUndefined
     \<lparr>shadow_off = False\<rparr> = Inr (JNum 7)
   \<and> resolve reach_plain (grandparent_x\<lparr>ancestor := Some Root\<rparr>) (JNum 0) three_ancestors
       no_prefs JUndefined \<lparr>shadow_off = False\<rparr> = Inr (JNum 9)
   \<and> resolve reach_plain (grandparent_x\<lparr>ancestor := None, type := TGlobal\<rparr>) (JNum 0)
       \<lparr>ancestors = [], shadow = None\<rparr>
       \<lparr>prefs_context = JObj 4 [(''x'', JNum 3)], prefs_convert = True\<rparr> JUndefined
       \<lparr>shadow_off = False\<rparr> = Inr (JNum 3)
   \<and> resolve reach_plain grandparent_x (JNum 0) shadowed_ancestors no_prefs JUndefined
       \<lparr>shadow_off = False\<rparr> = Inr (JNum 99)
   \<and> (\<forall>t p i w. snd (reach_plain_io t p i w) = w) \<and> (\<forall>x w. snd (keep_io x w) = w)
   \<and> (case resolve_io reach_plain_io keep_io adjusted_x (JNum 0) shadowed_ancestors no_prefs
             JUndefined \<lparr>shadow_off = False\<rparr> 5 of
         Inl e \<Rightarrow> True | Inr res \<Rightarrow> snd res = 5)
   \<and> resolve_io reach_plain_io keep_io adjusted_x (JNum 0) three_ancestors no_prefs JUndefined
       \<lparr>shadow_off = False\<rparr> 5 = Inr (JNum 7, 5)"
proof -
  note t = resolve_reads_target [THEN conjunct1]
  have 1: "resolve reach_plain grandparent_x (JNum 0) three_ancestors no_prefs JUndefined
     \<lparr>shadow_off = False\<rparr> = Inr (JNum 7)"
    by (simp add: t resolve_target_def adjust_map_def shadow_value_def exceeds_root_def
        grandparent_x_def js_index_def three_ancestors_def)
  have 2: "resolve reach_plain (grandparent_x\<lparr>ancestor := Some Root\<rparr>) (JNum 0) three_ancestors
       no_prefs JUndefined \<lparr>shadow_off = False\<rparr> = Inr (JNum 9)"
    by (simp add: t resolve_target_def adjust_map_def shadow_value_def exceeds_root_def
        grandparent_x_def js_index_def three_ancestors_def)
  have 3: "resolve reach_plain (grandparent_x\<lparr>ancestor := None, type := TGlobal\<rparr>) (JNum 0)
       \<lparr>ancestors = [], shadow = None\<rparr>
       \<lparr>prefs_context = JObj 4 [(''x'', JNum 3)], prefs_convert = True\<rparr> JUndefined
       \<lparr>shadow_off = False\<rparr> = Inr (JNum 3)"
    by (simp add: t resolve_target_def adjust_map_def shadow_value_def exceeds_root_def
        grandparent_x_def js_index_def)
  have 4: "resolve reach_plain grandparent_x (JNum 0) shadowed_ancestors no_prefs JUndefined
       \<lparr>shadow_off = False\<rparr> = Inr (JNum 99)"
    by (simp add: t resolve_target_def adjust_map_def shadow_value_def exceeds_root_def
        grandparent_x_def js_index_def three_ancestors_def shadowed_ancestors_def)
  have 5: "resolve reach_plain adjusted_x (JNum 0) three_ancestors no_prefs JUndefined
     \<lparr>shadow_off = False\<rparr> = Inr (JNum 7)"
    by (simp add: t resolve_target_def adjust_map_def shadow_value_def exceeds_root_def
        grandparent_x_def adjusted_x_def js_index_def three_ancestors_def)
  have e: "reach_plain_io = (\<lambda>t p i w. (reach_plain t p i, w))"
    "keep_io = (\<lambda>x w. (case adjust adjusted_x of Some f \<Rightarrow> f x | None \<Rightarrow> x, w))"
    by (simp_all add: fun_eq_iff reach_plain_io_def keep_io_def adjusted_x_def)
  from resolve_reads_target [THEN conjunct2, THEN conjunct2, of reach_plain adjusted_x
      "JNum 0" three_ancestors no_prefs JUndefined "\<lparr>shadow_off = False\<rparr>" 5] 5
  have 6: "resolve_io reach_plain_io keep_io adjusted_x (JNum 0) three_ancestors no_prefs
       JUndefined \<lparr>shadow_off = False\<rparr> 5 = Inr (JNum 7, 5)"
    unfolding e by simp
  have hyp: "(\<forall>t p i w. snd (reach_plain_io t p i w) = w) \<and> (\<forall>x w. snd (keep_io x w) = w)"
    by (simp add: reach_plain_io_def keep_io_def)
  from resolve_reads_target [THEN conjunct2, THEN conjunct1, THEN mp, OF hyp]
  have 7: "case resolve_io reach_plain_io keep_io adjusted_x (JNum 0) shadowed_ancestors no_prefs
             JUndefined \<lparr>shadow_off = False\<rparr> 5 of
         Inl e \<Rightarrow> True | Inr res \<Rightarrow> snd res = 5" .
  from 1 2 3 4 6 7 hyp show ?thesis by simp
qed

text \<open>
  The claim as stated fails in three places. Where the depth exceeds the ancestors, the
  reference of \<open>...x\<close> under one ancestor does not read \<open>state.ancestors[1]\<close> (which would
  be \<open>undefined\<close>): \<open>resolve\<close> throws. Where the shadow holds a value for the path, that value
  is returned, 99 here, and not the 7 that is at the path in \<open>state.ancestors[1]\<close>. And
  an \<open>adjust\<close> function that changes the state of the data changes it in \<open>resolve\<close>.
\<close>

theorem resolve_reads_target_counterexample:
  "resolve reach_plain grandparent_x (JNum 0)
     \<lparr>ancestors = [JObj 1 [(''x'', JNum 1)]], shadow = None\<rparr> no_prefs JUndefined
     \<lparr>shadow_off = False\<rparr>
     = Inl (AssertError ''Invalid reference exceeds the schema root'')
   \<and> resolve reach_plain grandparent_x (JNum 0) shadowed_ancestors no_prefs JUndefined
       \<lparr>shadow_off = False\<rparr> = Inr (JNum 99)
   \<and> reach_plain (resolve_target grandparent_x (JNum 0) shadowed_ancestors no_prefs JUndefined)
       (path grandparent_x) (iterables grandparent_x) = JNum 7
   \<and> resolve_io reach_plain_io count_io adjusted_x (JNum 0) three_ancestors no_prefs JUndefined
       \<lparr>shadow_off = False\<rparr> 0 = Inr (JNum 7, 1)"
  by (simp add: resolve_def resolve_io_def resolve_inner_def resolve_inner_io_def
      ancestor_falsy_def grandparent_x_def adjusted_x_def resolve_target_def js_index_def
      three_ancestors_def shadowed_ancestors_def reach_plain_io_def count_io_def)

subsection \<open>Describe and build\<close>

lemma map_set_keys: "fst ` set (map_set m k v) \<subseteq> insert k (fst ` set m)"
  by (induction m k v rule: map_set.induct) auto

lemma map_set_fresh:
  "\<forall>e \<in> set m. \<not> same_value_zero (fst e) k \<Longrightarrow> map_set m k v = m @ [(k, v)]"
  by (induction m) auto

lemma map_set_distinct: "keys_distinct m \<Longrightarrow> keys_distinct (map_set m k v)"
proof (induction m k v rule: map_set.induct)
  case (1 k v)
  then show ?case by simp
next
  case (2 k' v' m k v)
  show ?case
  proof (cases "same_value_zero k' k")
    case True
    with "2.prems" show ?thesis by simp
  next
    case False
    have tl: "keys_distinct (map_set m k v)"
      using "2.IH" [OF False] "2.prems" by simp
    have "\<forall>e \<in> set (map_set m k v). \<not> same_value_zero k' (fst e)"
    proof
      fix e assume "e \<in> set (map_set m k v)"
      then have "fst e \<in> insert k (fst ` set m)"
        using map_set_keys [of m k v] by auto
      then show "\<not> same_value_zero k' (fst e)"
        using False "2.prems" by auto
    qed
    with tl False show ?thesis by simp
  qed
qed

lemma foldl_map_set_distinct:
  "keys_distinct acc \<Longrightarrow> keys_distinct (foldl (\<lambda>m (k, v). map_set m k v) acc es)"
  by (induction es arbitrary: acc) (auto simp: map_set_distinct)

lemma map_new_distinct: "keys_distinct (map_new es)"
  by (simp add: map_new_def foldl_map_set_distinct)

lemma keys_distinct_append:
  "keys_distinct (xs @ ys) \<Longrightarrow> e \<in> set xs \<Longrightarrow> f \<in> set ys
   \<Longrightarrow> \<not> same_value_zero (fst e) (fst f)"
  by (induction xs) auto

lemma foldl_map_set_append:
  "keys_distinct (acc @ es) \<Longrightarrow> foldl (\<lambda>m (k, v). map_set m k v) acc es = acc @ es"
proof (induction es arbitrary: acc)
  case Nil
  then show ?case by simp
next
  case (Cons e es)
  obtain k v where e: "e = (k, v)" by (cases e)
  have "\<forall>x \<in> set acc. \<not> same_value_zero (fst x) k"
    using keys_distinct_append [OF Cons.prems, of _ e] e by auto
  then have "map_set acc k v = acc @ [(k, v)]"
    by (rule map_set_fresh)
  moreover have "keys_distinct ((acc @ [(k, v)]) @ es)"
    using Cons.prems e by simp
  ultimately show ?case
    using Cons.IH [of "acc @ [(k, v)]"] e by simp
qed

text \<open>Rebuilding a Map from its own entries gives the same Map.\<close>

lemma map_new_idem: "map_new (map_entries (map_new es)) = map_new es"
  using foldl_map_set_append [of "[]" "map_new es"] map_new_distinct [of es]
  by (simp add: map_entries_def map_new_def)

text \<open>
  \<open>create\<close> and \<open>build\<close> call the constructor with an ancestor whenever the type is
  \<open>value\<close>.
\<close>

lemma create_new_Ref:
  assumes "create k opts = Inr r"
  shows "\<exists>i. new_Ref i = Inr r \<and> (i_type i = TValue \<longrightarrow> i_ancestor i \<noteq> None)"
proof (cases "c_type (ref_context k (o_prefix opts)) = TValue")
  case False
  with assms show ?thesis
    unfolding create_def Let_def by (auto intro!: exI)
next
  case True
  with assms show ?thesis
    unfolding create_def Let_def
    by (auto split: if_splits prod.splits intro!: exI)
qed

lemma build_new_Ref:
  assumes "build d = Inr r"
  shows "\<exists>i. new_Ref i = Inr r \<and> (i_type i = TValue \<longrightarrow> i_ancestor i \<noteq> None)"
  using assms unfolding build_def Let_def
  by (auto split: if_splits option.splits intro!: exI)

lemma new_Ref_roundtrip:
  assumes ok: "new_Ref i = Inr r"
    and anc: "i_type i = TValue \<longrightarrow> i_ancestor i \<noteq> None"
  shows "build (describe r) = Inr r"
proof -
  from ok have a: "\<not> (i_map i \<noteq> None \<and> i_adjust i \<noteq> None)"
    and b: "i_type i = TValue \<or> i_ancestor i = None"
    by (auto simp: new_Ref_def split: if_splits)
  let ?k = "if i_path i = [] then None
            else Some (js_join (sep_text (i_separator i)) (map seg_text (i_path i)))"
  from ok a b obtain d
    where d: "updateDisplay (i_type i) (i_separator i) (i_ancestor i) ?k = Inr d"
      and r: "r = \<lparr>adjust = i_adjust i, ancestor = i_ancestor i, iterables = i_iterables i,
                   map_r = map_option map_new (i_map i), path = i_path i,
                   separator = i_separator i, type = i_type i, depth = length (i_path i),
                   key = ?k, root = (case i_path i of [] \<Rightarrow> None | g # _ \<Rightarrow> Some g),
                   display = d\<rparr>"
    by (auto simp: new_Ref_def Let_def split: if_splits sum.splits)
  have m: "map_option map_new (map_option map_entries (map_option map_new (i_map i)))
           = map_option map_new (i_map i)"
    by (cases "i_map i") (simp_all add: map_new_idem)
  show ?thesis
    using a b anc d m
    by (auto simp: r build_def describe_def new_Ref_def Let_def split: option.splits)
qed

text \<open>
  C3. For every reference \<open>r\<close> that \<open>create\<close> or \<open>build\<close> returns, the descriptor of
  \<open>describe\<close> holds the path; the type only when it is not \<open>value\<close>; the separator only
  when it is not \<open>'.'\<close>; the ancestor only for a value reference whose ancestor is not 1;
  the entries of the map as a list; and \<open>build\<close> on that descriptor returns a reference
  equal to \<open>r\<close> in every field, which therefore resolves as \<open>r\<close> does on every input.
\<close>

theorem describe_build_roundtrip:
  assumes "create k opts = Inr r \<or> build d = Inr r"
  shows "d_path (describe r) = path r
       \<and> d_type (describe r) = (if type r = TValue then None else Some (type r))
       \<and> d_separator (describe r)
           = (if separator r = SepChar CHR ''.'' then None else Some (separator r))
       \<and> d_ancestor (describe r)
           = (if type r = TValue \<and> ancestor r \<noteq> Some (Depth 1) then ancestor r else None)
       \<and> d_map (describe r) = map_option map_entries (map_r r)
       \<and> build (describe r) = Inr r
       \<and> (\<exists>r'. build (describe r) = Inr r' \<and>
            (\<forall>reach v st p l ro. resolve reach r' v st p l ro = resolve reach r v st p l ro))"
proof -
  from assms obtain i
    where "new_Ref i = Inr r" and "i_type i = TValue \<longrightarrow> i_ancestor i \<noteq> None"
    using create_new_Ref build_new_Ref by blast
  then have "build (describe r) = Inr r"
    by (rule new_Ref_roundtrip)
  then show ?thesis
    by (simp add: describe_def)
qed


lemma build_mapped_desc: "build mapped_desc = Inr mapped_ref"
  by (simp add: build_def mapped_desc_def mapped_ref_def new_Ref_def updateDisplay_def
      map_new_def sep_text_def seg_text_def type_text_def key_text_def Let_def
      same_value_zero_def object_id_def)

theorem describe_build_roundtrip_witness:
  "create ''...x'' no_options = Inr grandparent_x
   \<and> describe grandparent_x
       = \<lparr>d_path = [Some ''x''], d_type = None, d_separator = None,
          d_ancestor = Some (Depth 2), d_map = None, d_adjust = None, d_iterables = None\<rparr>
   \<and> build (describe grandparent_x) = Inr grandparent_x
   \<and> build mapped_desc = Inr mapped_ref
   \<and> describe mapped_ref
       = \<lparr>d_path = [Some ''a'', Some ''b''], d_type = Some TGlobal,
          d_separator = Some SepFalse, d_ancestor = None,
          d_map = Some [(JNum 1, JStr ''z''), (JNum 2, JStr ''y'')],
          d_adjust = None, d_iterables = Some True\<rparr>
   \<and> build (describe mapped_ref) = Inr mapped_ref"
proof -
  have g: "build (describe grandparent_x) = Inr grandparent_x"
    using describe_build_roundtrip [OF disjI1 [OF create_grandparent_x]] by simp
  have m: "build (describe mapped_ref) = Inr mapped_ref"
    using describe_build_roundtrip [OF disjI2 [OF build_mapped_desc]] by simp
  have dg: "describe grandparent_x
       = \<lparr>d_path = [Some ''x''], d_type = None, d_separator = None,
          d_ancestor = Some (Depth 2), d_map = None, d_adjust = None, d_iterables = None\<rparr>"
    by (simp add: describe_def grandparent_x_def)
  have dm: "describe mapped_ref
       = \<lparr>d_path = [Some ''a'', Some ''b''], d_type = Some TGlobal,
          d_separator = Some SepFalse, d_ancestor = None,
          d_map = Some [(JNum 1, JStr ''z''), (JNum 2, JStr ''y'')],
          d_adjust = None, d_iterables = Some True\<rparr>"
    by (simp add: describe_def mapped_ref_def map_entries_def)
  show ?thesis
    using g m dg dm create_grandparent_x build_mapped_desc by simp
qed


section \<open>Schemas, rules and validation results\<close>

text \<open>\<open>!!v\<close>: the truthiness of a value.\<close>

definition js_truthy :: "jsval \<Rightarrow> bool" where
  "js_truthy v = (case v of
       JUndefined \<Rightarrow> False | JNull \<Rightarrow> False | JBool b \<Rightarrow> b
     | JNum n \<Rightarrow> n \<noteq> 0 | JStr s \<Rightarrow> s \<noteq> [] | _ \<Rightarrow> True)"

text \<open>The operators the length rules record: \<open>'='\<close>, \<open>'<='\<close> and \<open>'>='\<close>.\<close>

datatype operator = OpEq | OpLe | OpGe

text \<open>A limit argument: a number, or a reference resolved when the value is validated.\<close>

datatype limit_arg = LimitNum int | LimitRef ref

text \<open>
  The \<open>args\<close> of a rule, by the rule that takes them: \<open>{ limit, encoding }\<close> of
  length, min and max, \<open>{ form }\<close> of normalize, \<open>{ direction }\<close> of case, \<open>{ enabled }\<close> of
  trim, \<open>{ options: { byteAligned } }\<close> of hex, \<open>{ regex, options }\<close> of pattern.
\<close>

datatype rule_args =
    NoArgs
  | LengthArgs limit_arg "string option"
  | NormalizeArgs string
  | CaseArgs string
  | TrimArgs bool
  | HexArgs bool
  | PatternArgs jsval "(string \<times> jsval) list"

text \<open>A rule descriptor, as the rule methods hand it to \<open>$_addRule\<close>.\<close>

record rule =
  r_name :: string
  r_method :: string
  r_args :: rule_args
  r_operator :: "operator option"
  r_errorCode :: "string option"

text \<open>Schema objects live in a store and are named by their address.\<close>

type_synonym addr = nat

text \<open>
  An entry of \<open>$_terms.matches\<close>: \<open>{ schema }\<close> as \<open>try\<close> pushes it, or
  \<open>{ ref, peek, is, then, otherwise }\<close> as \<open>when\<close> does. An entry of
  \<open>$_terms.replacements\<close>: \<open>{ pattern, replacement }\<close>.
\<close>

record match =
  m_schema :: "addr option"
  m_ref :: "ref option"
  m_peek :: "addr option"
  m_is :: "addr option"
  m_then :: "addr option"
  m_otherwise :: "addr option"

datatype item = IMatch match | IReplacement string string string

text \<open>
  A schema as validation reads it: its type, its flags, its rules in order, and each term
  with its entries (\<open>None\<close> for a term that is \<open>null\<close>).
\<close>

record schema =
  s_type :: string
  s_flags :: "(string \<times> jsval) list"
  s_rules :: "rule list"
  s_terms :: "(string \<times> item list option) list"

text \<open>
  An error report: its code and the local context it was created with. The errors of
  a result that are not reports (an \<open>Error\<close> object set by an override) are \<open>PlainError\<close>.
  \<open>Details es\<close> is \<open>Errors.details(es, { override: false })\<close>.
\<close>

datatype cval = CVal jsval | CRef ref | CStrs "string list"

datatype report_context = NoContext | Local "(string \<times> cval) list" | Details "error_item list"
  and error_item = Report string report_context | PlainError string

text \<open>
  What a hook or \<open>$_validate\<close> returns: \<open>{ value, errors }\<close>, either key possibly absent;
  \<open>errors\<close> is one report or an array.
\<close>

datatype errors_val = NoErrors | ErrOne error_item | ErrMany "error_item list"

record vresult =
  v_value :: "jsval option"
  v_errors :: errors_val

definition flag :: "schema \<Rightarrow> string \<Rightarrow> jsval" where
  "flag s n = (case map_of (s_flags s) n of None \<Rightarrow> JUndefined | Some v \<Rightarrow> v)"

definition terms_of :: "schema \<Rightarrow> string \<Rightarrow> item list option" where
  "terms_of s n = (case map_of (s_terms s) n of Some (Some xs) \<Rightarrow> Some xs | _ \<Rightarrow> None)"

text \<open>
  Modelled from the spec: \<open>$_getRule\<close> of the base class, which is not under src. A rule's
  name is its identifier, used for lookup by name: the rule of that name, if any.
\<close>

definition getRule :: "schema \<Rightarrow> string \<Rightarrow> rule option" where
  "getRule s n = find (\<lambda>r. r_name r = n) (s_rules s)"

section \<open>The string type\<close>

text \<open>
  What the string type calls outside this repository, taken as parameters: the string
  methods \<open>normalize\<close>, \<open>toLocaleUpperCase\<close>, \<open>toLocaleLowerCase\<close> and \<open>replace\<close>; the ISO
  date test and conversion (\<open>Some\<close> of the ISO string for a valid date);
  \<open>Buffer.byteLength\<close> and \<open>Buffer.isEncoding\<close>. \<open>e_limit\<close> is \<open>Common.limit\<close> on numbers,
  the assertion of a limit argument ('must be a positive integer'), which is not under
  src: which integers it accepts is left open.
\<close>

record str_env =
  e_normalize :: "string \<Rightarrow> string \<Rightarrow> string"
  e_upper :: "string \<Rightarrow> string"
  e_lower :: "string \<Rightarrow> string"
  e_replace :: "string \<Rightarrow> string \<Rightarrow> string \<Rightarrow> string \<Rightarrow> string"
  e_isoDate :: "string \<Rightarrow> string option"
  e_byteLength :: "string \<Rightarrow> string \<Rightarrow> nat"
  e_isEncoding :: "string \<Rightarrow> bool"
  e_limit :: "int \<Rightarrow> bool"

text \<open>\<open>Common.limit\<close> on any value: only a number can be a valid limit.\<close>

definition common_limit :: "str_env \<Rightarrow> jsval \<Rightarrow> bool" where
  "common_limit env v = (case v of JNum n \<Rightarrow> e_limit env n | _ \<Rightarrow> False)"

text \<open>
  Modelled from the spec: \<open>Common.compare\<close>, which is not under src. A comparison rule
  records which comparison to apply; \<open>compare\<close> applies it.
\<close>

definition compare :: "int \<Rightarrow> int \<Rightarrow> operator \<Rightarrow> bool" where
  "compare a b operator = (case operator of OpEq \<Rightarrow> a = b | OpLe \<Rightarrow> a \<le> b | OpGe \<Rightarrow> a \<ge> b)"

text \<open>\<open>value.slice(0, n)\<close>: a negative end counts from the end of the string.\<close>

definition js_slice0 :: "string \<Rightarrow> int \<Rightarrow> string" where
  "js_slice0 s n = (if n < 0 then take (nat (int (length s) + n)) s else take (nat n) s)"

definition limit_cval :: "limit_arg \<Rightarrow> cval" where
  "limit_cval l = (case l of LimitNum n \<Rightarrow> CVal (JNum n) | LimitRef r \<Rightarrow> CRef r)"

subsection \<open>The coerce hook\<close>

text \<open>The steps of \<open>coerce.method\<close>, in the order of the source.\<close>

definition coerce_normalize :: "str_env \<Rightarrow> schema \<Rightarrow> string \<Rightarrow> string" where
  "coerce_normalize env s v =
     (case getRule s ''normalize'' of
        Some r \<Rightarrow> (case r_args r of NormalizeArgs form \<Rightarrow> e_normalize env form v | _ \<Rightarrow> v)
      | None \<Rightarrow> v)"

definition coerce_case :: "str_env \<Rightarrow> schema \<Rightarrow> string \<Rightarrow> string" where
  "coerce_case env s v =
     (case getRule s ''case'' of
        Some r \<Rightarrow>
          (case r_args r of
             CaseArgs direction \<Rightarrow> (if direction = ''upper'' then e_upper env v else e_lower env v)
           | _ \<Rightarrow> v)
      | None \<Rightarrow> v)"

definition coerce_trim :: "schema \<Rightarrow> string \<Rightarrow> string" where
  "coerce_trim s v =
     (case getRule s ''trim'' of
        Some r \<Rightarrow> (case r_args r of TrimArgs enabled \<Rightarrow> (if enabled then js_trim v else v) | _ \<Rightarrow> v)
      | None \<Rightarrow> v)"

definition apply_replacements :: "str_env \<Rightarrow> item list \<Rightarrow> string \<Rightarrow> string" where
  "apply_replacements env items v =
     foldl (\<lambda>v it. case it of IReplacement p f r \<Rightarrow> e_replace env p f r v | _ \<Rightarrow> v) v items"

definition coerce_replace :: "str_env \<Rightarrow> schema \<Rightarrow> string \<Rightarrow> string" where
  "coerce_replace env s v =
     (case terms_of s ''replacements'' of
        Some items \<Rightarrow> apply_replacements env items v
      | None \<Rightarrow> v)"

definition coerce_hex :: "schema \<Rightarrow> string \<Rightarrow> string" where
  "coerce_hex s v =
     (case getRule s ''hex'' of
        Some r \<Rightarrow>
          (case r_args r of
             HexArgs byteAligned \<Rightarrow> (if byteAligned \<and> length v mod 2 \<noteq> 0 then ''0'' @ v else v)
           | _ \<Rightarrow> v)
      | None \<Rightarrow> v)"

text \<open>The report of a reference that resolves to an invalid limit.\<close>

definition limit_ref_error :: "ref \<Rightarrow> error_item" where
  "limit_ref_error r =
     Report ''any.ref''
       (Local [(''ref'', CRef r), (''arg'', CVal (JStr ''limit'')),
               (''reason'', CVal (JStr ''must be a positive integer''))])"

text \<open>The truncate branch (\<open>if (schema._flags.truncate) ...\<close>) and the final \<open>return { value }\<close>.\<close>

definition coerce_truncate ::
  "str_env \<Rightarrow> reach_fn \<Rightarrow> schema \<Rightarrow> string \<Rightarrow> vstate \<Rightarrow> prefs \<Rightarrow> error + vresult" where
  "coerce_truncate env reach s v state prefs =
     (if js_truthy (flag s ''truncate'') then
        (case getRule s ''max'' of
           Some rule \<Rightarrow>
             (case r_args rule of
                LengthArgs (LimitRef r) _ \<Rightarrow>
                  (case resolve reach r (JStr v) state prefs JUndefined \<lparr>shadow_off = False\<rparr> of
                     Inl e \<Rightarrow> Inl e
                   | Inr limit \<Rightarrow>
                       (if \<not> common_limit env limit then
                          Inr \<lparr>v_value = Some (JStr v), v_errors = ErrOne (limit_ref_error r)\<rparr>
                        else (case limit of
                                JNum n \<Rightarrow>
                                  Inr \<lparr>v_value = Some (JStr (js_slice0 v n)), v_errors = NoErrors\<rparr>
                              | _ \<Rightarrow> Inr \<lparr>v_value = Some (JStr v), v_errors = NoErrors\<rparr>)))
              | LengthArgs (LimitNum n) _ \<Rightarrow>
                  Inr \<lparr>v_value = Some (JStr (js_slice0 v n)), v_errors = NoErrors\<rparr>
              | _ \<Rightarrow> Inr \<lparr>v_value = Some (JStr v), v_errors = NoErrors\<rparr>)
         | None \<Rightarrow> Inr \<lparr>v_value = Some (JStr v), v_errors = NoErrors\<rparr>)
      else Inr \<lparr>v_value = Some (JStr v), v_errors = NoErrors\<rparr>)"

text \<open>
  \<open>coerce.method\<close>, called on a string value (\<open>from: 'string'\<close>). It throws only where
  \<open>limit.resolve\<close> does.
\<close>

definition coerce ::
  "str_env \<Rightarrow> reach_fn \<Rightarrow> schema \<Rightarrow> string \<Rightarrow> vstate \<Rightarrow> prefs \<Rightarrow> error + vresult" where
  "coerce env reach s value state prefs =
     (let v1 = coerce_normalize env s value;
          v2 = coerce_case env s v1;
          v3 = coerce_trim s v2;
          v4 = coerce_replace env s v3;
          v5 = coerce_hex s v4
      in if getRule s ''isoDate'' \<noteq> None then
           (case e_isoDate env v5 of
              Some d \<Rightarrow> coerce_truncate env reach s d state prefs
            | None \<Rightarrow> Inr \<lparr>v_value = Some (JStr v5),
                             v_errors = ErrOne (Report ''string.isoDate'' NoContext)\<rparr>)
         else coerce_truncate env reach s v5 state prefs)"

subsection \<open>The base validation and the length rules\<close>

text \<open>The \<open>validate\<close> hook: \<open>None\<close> where the source returns nothing.\<close>

definition string_validate :: "jsval \<Rightarrow> vresult option" where
  "string_validate value =
     (case value of
        JStr s \<Rightarrow>
          (if s = [] then
             Some \<lparr>v_value = Some value, v_errors = ErrOne (Report ''string.empty'' NoContext)\<rparr>
           else None)
      | _ \<Rightarrow> Some \<lparr>v_value = Some value, v_errors = ErrOne (Report ''string.base'' NoContext)\<rparr>)"

text \<open>What the \<open>validate\<close> of a rule returns: the value, or the report of \<open>helpers.error\<close>.\<close>

datatype outcome = Pass string | Fail error_item

text \<open>
  \<open>rules.length.validate\<close>, which length, min and max share. \<open>limit\<close> is the resolved
  limit; the report carries the argument as it was given (\<open>args.limit\<close>).
\<close>

definition rules_length_validate ::
  "str_env \<Rightarrow> string \<Rightarrow> int \<Rightarrow> string option \<Rightarrow> rule \<Rightarrow> outcome" where
  "rules_length_validate env value limit encoding rule =
     (let len = (case encoding of
                   Some enc \<Rightarrow> (if enc \<noteq> [] then int (e_byteLength env value enc)
                                 else int (length value))
                 | None \<Rightarrow> int (length value));
          ok = (case r_operator rule of Some operator \<Rightarrow> compare len limit operator | None \<Rightarrow> False)
      in if ok then Pass value
         else Fail (Report (''string.'' @ r_name rule)
                (Local [(''limit'', (case r_args rule of
                                       LengthArgs l _ \<Rightarrow> limit_cval l
                                     | _ \<Rightarrow> CVal JUndefined)),
                        (''value'', CVal (JStr value)),
                        (''encoding'', (case encoding of
                                          Some enc \<Rightarrow> CVal (JStr enc)
                                        | None \<Rightarrow> CVal JUndefined))])))"

section \<open>The alternatives type: validation\<close>

text \<open>
  \<open>item.schema.$_validate(value, state.nest(item.schema), prefs)\<close> and
  \<open>is.$_match(input, state.entry(is, state.ancestors[0]), prefs)\<close> are the validation of
  another schema: the loop takes them as the parameters \<open>vld\<close> and \<open>mtch\<close>.
\<close>

type_synonym branch_fn = "addr \<Rightarrow> jsval \<Rightarrow> vstate \<Rightarrow> prefs \<Rightarrow> error + vresult"
type_synonym match_fn = "addr \<Rightarrow> jsval \<Rightarrow> vstate \<Rightarrow> prefs \<Rightarrow> error + bool"

text \<open>The loop over the matches either returns a result or runs to its end with the
  errors it collected.\<close>

datatype loop_result = Returned vresult | Collected "error_item list"

definition and_then :: "error + 'a \<Rightarrow> ('a \<Rightarrow> error + 'b) \<Rightarrow> error + 'b" where
  "and_then m f = (case m of Inl e \<Rightarrow> Inl e | Inr x \<Rightarrow> f x)"

fun alternatives_loop ::
  "branch_fn \<Rightarrow> match_fn \<Rightarrow> reach_fn \<Rightarrow> item list \<Rightarrow> jsval \<Rightarrow> vstate \<Rightarrow> prefs
   \<Rightarrow> error_item list \<Rightarrow> error + loop_result" where
  "alternatives_loop vld mtch reach [] value state prefs errors = Inr (Collected errors)"
| "alternatives_loop vld mtch reach (IReplacement p f r # items) value state prefs errors =
     Inl (TypeError ''Cannot read property $_match of undefined'')"
| "alternatives_loop vld mtch reach (IMatch item # items) value state prefs errors =
     (case m_schema item of
        Some sch \<Rightarrow>
          and_then (vld sch value state prefs)
            (\<lambda>result.
               case v_errors result of
                 NoErrors \<Rightarrow> Inr (Returned result)
               | ErrMany es \<Rightarrow>
                   alternatives_loop vld mtch reach items value state prefs (errors @ es)
               | ErrOne e \<Rightarrow> Inl (TypeError ''result.errors is not iterable''))
      | None \<Rightarrow>
          (case (case m_peek item of Some p \<Rightarrow> Some p | None \<Rightarrow> m_is item) of
             None \<Rightarrow> Inl (TypeError ''Cannot read property $_match of undefined'')
           | Some is \<Rightarrow>
               and_then
                 (if m_is item \<noteq> None
                  then (case m_ref item of
                          None \<Rightarrow> Inl (TypeError ''Cannot read property resolve of null'')
                        | Some r \<Rightarrow> resolve reach r value state prefs JUndefined
                                     \<lparr>shadow_off = False\<rparr>)
                  else Inr value)
                 (\<lambda>input.
                    and_then (mtch is input state prefs)
                      (\<lambda>matched.
                         if \<not> matched then
                           (case m_otherwise item of
                              Some ow \<Rightarrow>
                                and_then (vld ow value state prefs) (\<lambda>r. Inr (Returned r))
                            | None \<Rightarrow>
                                alternatives_loop vld mtch reach items value state prefs errors)
                         else
                           (case m_then item of
                              Some th \<Rightarrow>
                                and_then (vld th value state prefs) (\<lambda>r. Inr (Returned r))
                            | None \<Rightarrow>
                                alternatives_loop vld mtch reach items value state prefs
                                  errors)))))"

text \<open>
  The loop over the collected errors: \<open>None\<close> where the source returns
  \<open>alternatives.match\<close> from inside the loop, otherwise the types it pushed.
\<close>

fun collect_types :: "error_item list \<Rightarrow> string list \<Rightarrow> string list option" where
  "collect_types [] types = Some types"
| "collect_types (PlainError m # reports) types = None"
| "collect_types (Report code ctx # reports) types =
     (case js_split CHR ''.'' code of
        t # c # _ \<Rightarrow> (if c \<noteq> ''base'' then None else collect_types reports (types @ [t]))
      | _ \<Rightarrow> None)"

text \<open>The part of \<open>validate\<close> after the loop over the matches.\<close>

definition aggregate :: "error_item list \<Rightarrow> vresult" where
  "aggregate errors =
     (if length errors = 0 then
        \<lparr>v_value = None, v_errors = ErrOne (Report ''alternatives.base'' NoContext)\<rparr>
      else if length errors = 1 then
        \<lparr>v_value = None, v_errors = ErrMany errors\<rparr>
      else
        (case collect_types errors [] of
           None \<Rightarrow>
             \<lparr>v_value = None, v_errors = ErrOne (Report ''alternatives.match'' (Details errors))\<rparr>
         | Some types \<Rightarrow>
             \<lparr>v_value = None,
              v_errors = ErrOne (Report ''alternatives.types'' (Local [(''types'', CStrs types)]))\<rparr>))"

definition alternatives_validate ::
  "branch_fn \<Rightarrow> match_fn \<Rightarrow> reach_fn \<Rightarrow> schema \<Rightarrow> jsval \<Rightarrow> vstate \<Rightarrow> prefs \<Rightarrow> error + vresult" where
  "alternatives_validate vld mtch reach s value state prefs =
     (case terms_of s ''matches'' of
        None \<Rightarrow> Inl (TypeError ''schema.$_terms.matches is not iterable'')
      | Some items \<Rightarrow>
          (case alternatives_loop vld mtch reach items value state prefs [] of
             Inl e \<Rightarrow> Inl e
           | Inr (Returned result) \<Rightarrow> Inr result
           | Inr (Collected errors) \<Rightarrow> Inr (aggregate errors)))"

text \<open>
  The tiers of the aggregation as the specification words them. \<open>base_type e\<close> is the
  type of a report whose code is a type's \<open>base\<close> code.
\<close>

definition base_type :: "error_item \<Rightarrow> string option" where
  "base_type e =
     (case e of
        Report code ctx \<Rightarrow>
          (case js_split CHR ''.'' code of
             t # c # _ \<Rightarrow> (if c = ''base'' then Some t else None)
           | _ \<Rightarrow> None)
      | PlainError m \<Rightarrow> None)"

definition aggregate_tiers :: "error_item list \<Rightarrow> vresult" where
  "aggregate_tiers es =
     (if es = [] then
        \<lparr>v_value = None, v_errors = ErrOne (Report ''alternatives.base'' NoContext)\<rparr>
      else if length es = 1 then \<lparr>v_value = None, v_errors = ErrMany es\<rparr>
      else if list_all (\<lambda>e. base_type e \<noteq> None) es then
        \<lparr>v_value = None,
         v_errors = ErrOne (Report ''alternatives.types''
           (Local [(''types'',
                    CStrs (map (\<lambda>e. case base_type e of Some t \<Rightarrow> t | None \<Rightarrow> []) es))]))\<rparr>
      else \<lparr>v_value = None, v_errors = ErrOne (Report ''alternatives.match'' (Details es))\<rparr>)"


section \<open>Schema objects\<close>

text \<open>
  The builder methods clone the receiver and then change the clone in place
  (\<open>obj.$_terms.matches.push(...)\<close>, \<open>obj.$_setFlag(..., { clone: false })\<close>), so whether the
  receiver stays as it was depends on which objects the clone shares with it. The store
  keeps every object the methods write to as a cell of its own: the schema object with
  its type and rules, its \<open>_flags\<close> object, its \<open>$_terms\<close> object, the array of each term,
  and the entries of those arrays. An address is an index into the store.
\<close>

datatype cell =
    Node string addr addr "rule list"
  | Flags "(string \<times> jsval) list"
  | Terms "(string \<times> addr option) list"
  | Array "addr list"
  | Item item

type_synonym heap = "cell list"

definition alloc :: "heap \<Rightarrow> cell \<Rightarrow> heap \<times> addr" where
  "alloc h c = (h @ [c], length h)"

definition cell_at :: "heap \<Rightarrow> addr \<Rightarrow> cell option" where
  "cell_at h a = (if a < length h then Some (h ! a) else None)"

text \<open>\<open>object[k] = v\<close>: an existing key keeps its place.\<close>

fun assoc_set :: "(string \<times> 'v) list \<Rightarrow> string \<Rightarrow> 'v \<Rightarrow> (string \<times> 'v) list" where
  "assoc_set [] k v = [(k, v)]"
| "assoc_set ((k', v') # kvs) k v =
     (if k' = k then (k', v) # kvs else (k', v') # assoc_set kvs k v)"

subsection \<open>Reading a schema from the store\<close>

definition read_item :: "heap \<Rightarrow> addr \<Rightarrow> item option" where
  "read_item h a = (case cell_at h a of Some (Item i) \<Rightarrow> Some i | _ \<Rightarrow> None)"

definition read_array :: "heap \<Rightarrow> addr \<Rightarrow> item list option" where
  "read_array h a =
     (case cell_at h a of Some (Array xs) \<Rightarrow> those (map (read_item h) xs) | _ \<Rightarrow> None)"

definition read_term :: "heap \<Rightarrow> addr option \<Rightarrow> item list option" where
  "read_term h ao = (case ao of None \<Rightarrow> None | Some a \<Rightarrow> read_array h a)"

definition view :: "heap \<Rightarrow> addr \<Rightarrow> schema option" where
  "view h a =
     (case cell_at h a of
        Some (Node t f tm rs) \<Rightarrow>
          (case cell_at h f of
             Some (Flags fl) \<Rightarrow>
               (case cell_at h tm of
                  Some (Terms ts) \<Rightarrow>
                    Some \<lparr>s_type = t, s_flags = fl, s_rules = rs,
                          s_terms = map (\<lambda>(k, ao). (k, read_term h ao)) ts\<rparr>
                | _ \<Rightarrow> None)
           | _ \<Rightarrow> None)
      | _ \<Rightarrow> None)"

definition type_at :: "heap \<Rightarrow> addr \<Rightarrow> string option" where
  "type_at h a = (case cell_at h a of Some (Node t f tm rs) \<Rightarrow> Some t | _ \<Rightarrow> None)"

subsection \<open>The operations of the base class\<close>

text \<open>
  Modelled from the spec: the construction of a schema by its type's factory, which is not
  under src. A node starts with no flags and no rules; the \<open>initialize\<close> hooks of the
  source set \<open>$_terms.replacements = null\<close> for a string and \<open>$_terms.matches = []\<close> for
  alternatives.
\<close>

definition new_schema :: "heap \<Rightarrow> string \<Rightarrow> heap \<times> addr" where
  "new_schema h t =
     (case alloc h (Flags []) of
        (h1, f) \<Rightarrow>
          (case (if t = ''string'' then (h1, [(''replacements'', None)])
                 else if t = ''alternatives'' then
                   (case alloc h1 (Array []) of (h2, arr) \<Rightarrow> (h2, [(''matches'', Some arr)]))
                 else (h1, [])) of
             (h3, ts) \<Rightarrow>
               (case alloc h3 (Terms ts) of
                  (h4, tm) \<Rightarrow> alloc h4 (Node t f tm []))))"

text \<open>The copy of every term array of a \<open>$_terms\<close> object (\<open>array.slice()\<close>).\<close>

fun slice_terms ::
  "heap \<Rightarrow> (string \<times> addr option) list \<Rightarrow> error + heap \<times> (string \<times> addr option) list" where
  "slice_terms h [] = Inr (h, [])"
| "slice_terms h ((k, None) # ts) =
     and_then (slice_terms h ts) (\<lambda>(h', ts'). Inr (h', (k, None) # ts'))"
| "slice_terms h ((k, Some a) # ts) =
     (case cell_at h a of
        Some (Array xs) \<Rightarrow>
          (case alloc h (Array xs) of
             (h1, a') \<Rightarrow>
               and_then (slice_terms h1 ts) (\<lambda>(h', ts'). Inr (h', (k, Some a') # ts')))
      | _ \<Rightarrow> Inl (TypeError ''slice is not a function''))"

text \<open>
  Modelled from the spec: \<open>clone\<close> of the base class, which is not under src. Every builder
  method returns a new node produced by shallow-cloning the receiver and changes only the
  clone: the clone is a new schema object with a copy of the flags and a copy of each
  term array of its own; the entries of the arrays and the rules are shared.
\<close>

definition clone :: "heap \<Rightarrow> addr \<Rightarrow> error + heap \<times> addr" where
  "clone h this =
     (case cell_at h this of
        Some (Node t f tm rs) \<Rightarrow>
          (case cell_at h f of
             Some (Flags fl) \<Rightarrow>
               (case cell_at h tm of
                  Some (Terms ts) \<Rightarrow>
                    (case alloc h (Flags fl) of
                       (h1, f') \<Rightarrow>
                         and_then (slice_terms h1 ts)
                           (\<lambda>(h2, ts').
                              case alloc h2 (Terms ts') of
                                (h3, tm') \<Rightarrow> Inr (alloc h3 (Node t f' tm' rs))))
                | _ \<Rightarrow> Inl (TypeError ''$_terms is not an object''))
           | _ \<Rightarrow> Inl (TypeError ''_flags is not an object''))
      | _ \<Rightarrow> Inl (TypeError ''clone is not a function''))"

text \<open>
  Modelled from the spec: \<open>$_setFlag(name, value, { clone: false })\<close> of the base class,
  which is not under src. A flag is single-valued and overwritten when set; with
  \<open>clone: false\<close> the flag is set on the object itself.
\<close>

definition setFlag_here :: "heap \<Rightarrow> addr \<Rightarrow> string \<Rightarrow> jsval \<Rightarrow> error + heap" where
  "setFlag_here h this name v =
     (case cell_at h this of
        Some (Node t f tm rs) \<Rightarrow>
          (case cell_at h f of
             Some (Flags fl) \<Rightarrow> Inr (h[f := Flags (assoc_set fl name v)])
           | _ \<Rightarrow> Inl (TypeError ''_flags is not an object''))
      | _ \<Rightarrow> Inl (TypeError ''$_setFlag is not a function''))"

text \<open>
  Modelled from the spec: \<open>$_setFlag(name, value)\<close> of the base class, which is not under
  src: a flag setter returns a clone of the receiver with the flag set.
\<close>

definition setFlag :: "heap \<Rightarrow> addr \<Rightarrow> string \<Rightarrow> jsval \<Rightarrow> error + heap \<times> addr" where
  "setFlag h this name v =
     and_then (clone h this)
       (\<lambda>(h1, obj). and_then (setFlag_here h1 obj name v) (\<lambda>h2. Inr (h2, obj)))"

text \<open>\<open>this.$_terms[name]\<close>, \<open>this.$_terms[name] = array\<close> and
  \<open>this.$_terms[name].push(entry)\<close>.\<close>

definition term_array :: "heap \<Rightarrow> addr \<Rightarrow> string \<Rightarrow> error + addr option" where
  "term_array h this name =
     (case cell_at h this of
        Some (Node t f tm rs) \<Rightarrow>
          (case cell_at h tm of
             Some (Terms ts) \<Rightarrow>
               (case map_of ts name of Some ao \<Rightarrow> Inr ao | None \<Rightarrow> Inr None)
           | _ \<Rightarrow> Inl (TypeError ''$_terms is not an object''))
      | _ \<Rightarrow> Inl (TypeError ''not a schema''))"

definition set_term :: "heap \<Rightarrow> addr \<Rightarrow> string \<Rightarrow> addr \<Rightarrow> error + heap" where
  "set_term h this name arr =
     (case cell_at h this of
        Some (Node t f tm rs) \<Rightarrow>
          (case cell_at h tm of
             Some (Terms ts) \<Rightarrow> Inr (h[tm := Terms (assoc_set ts name (Some arr))])
           | _ \<Rightarrow> Inl (TypeError ''$_terms is not an object''))
      | _ \<Rightarrow> Inl (TypeError ''not a schema''))"

definition push_term :: "heap \<Rightarrow> addr \<Rightarrow> string \<Rightarrow> item \<Rightarrow> error + heap" where
  "push_term h this name it =
     and_then (term_array h this name)
       (\<lambda>ao. case ao of
                None \<Rightarrow> Inl (TypeError ''Cannot read property push of null'')
              | Some arr \<Rightarrow>
                  (case cell_at h arr of
                     Some (Array xs) \<Rightarrow>
                       (case alloc h (Item it) of
                          (h1, ia) \<Rightarrow> Inr (h1[arr := Array (xs @ [ia])]))
                   | _ \<Rightarrow> Inl (TypeError ''push is not a function'')))"

text \<open>
  Modelled from the spec: \<open>$_addRule\<close> of the base class, which is not under src. It
  validates each argument that is not a reference against the assertion of its
  declaration (for the length rules, the limit against \<open>Common.limit\<close>), then appends the
  rule to the ruleset of a clone, except when the rule is not \<open>multi\<close> and a rule of the
  same name exists, which it replaces in place. Of the rules of the source, pattern and
  warning are declared \<open>multi\<close>.
\<close>

definition rule_multi :: "rule \<Rightarrow> bool" where
  "rule_multi r = (r_method r = ''pattern'' \<or> r_method r = ''warning'')"

definition args_ok :: "str_env \<Rightarrow> rule \<Rightarrow> bool" where
  "args_ok env r = (case r_args r of LengthArgs (LimitNum n) _ \<Rightarrow> e_limit env n | _ \<Rightarrow> True)"

fun replace_rule :: "rule list \<Rightarrow> rule \<Rightarrow> rule list" where
  "replace_rule [] r = [r]"
| "replace_rule (x # xs) r = (if r_name x = r_name r then r # xs else x # replace_rule xs r)"

definition addRule :: "str_env \<Rightarrow> heap \<Rightarrow> addr \<Rightarrow> rule \<Rightarrow> error + heap \<times> addr" where
  "addRule env h this r =
     (if \<not> args_ok env r then Inl (AssertError ''limit must be a positive integer'')
      else
        and_then (clone h this)
          (\<lambda>(h1, obj).
             case cell_at h1 obj of
               Some (Node t f tm rs) \<Rightarrow>
                 Inr (h1[obj := Node t f tm (if rule_multi r then rs @ [r] else replace_rule rs r)],
                      obj)
             | _ \<Rightarrow> Inl (TypeError ''not a schema'')))"

text \<open>
  Modelled from the spec: \<open>required()\<close> and \<open>label(name)\<close> of the base class, which are not
  under src: flag setters, returning a clone with the flag set.
\<close>

definition required :: "heap \<Rightarrow> addr \<Rightarrow> error + heap \<times> addr" where
  "required h this = setFlag h this ''presence'' (JStr ''required'')"

definition base_label :: "heap \<Rightarrow> addr \<Rightarrow> string \<Rightarrow> error + heap \<times> addr" where
  "base_label h this name =
     (if name = [] then Inl (AssertError ''Label name must be a non-empty string'')
      else setFlag h this ''label'' (JStr name))"

subsection \<open>Arguments of the builder methods\<close>

text \<open>
  What a caller passes to a builder method: a schema, a reference, a plain value, an
  array or an options object.
\<close>

datatype arg =
    ASchema addr
  | ARef ref
  | AVal jsval
  | AArr "arg list"
  | AObj "(string \<times> arg) list"

definition arg_truthy :: "arg \<Rightarrow> bool" where
  "arg_truthy x = (case x of AVal v \<Rightarrow> js_truthy v | _ \<Rightarrow> True)"

definition is_undefined :: "arg \<Rightarrow> bool" where
  "is_undefined x = (case x of AVal JUndefined \<Rightarrow> True | _ \<Rightarrow> False)"

definition is_schema :: "arg \<Rightarrow> bool" where
  "is_schema x = (case x of ASchema _ \<Rightarrow> True | _ \<Rightarrow> False)"

definition is_ref :: "arg \<Rightarrow> bool" where
  "is_ref x = (case x of ARef _ \<Rightarrow> True | _ \<Rightarrow> False)"

definition is_string :: "arg \<Rightarrow> bool" where
  "is_string x = (case x of AVal (JStr _) \<Rightarrow> True | _ \<Rightarrow> False)"

definition as_array :: "arg \<Rightarrow> arg list option" where
  "as_array x =
     (case x of AArr xs \<Rightarrow> Some xs | AVal (JArr i vs) \<Rightarrow> Some (map AVal vs) | _ \<Rightarrow> None)"

text \<open>\<open>x[k]\<close>: \<open>undefined\<close> for a missing key, a TypeError on \<open>null\<close> and \<open>undefined\<close>.\<close>

definition get_prop :: "arg \<Rightarrow> string \<Rightarrow> error + arg" where
  "get_prop x k =
     (case x of
        AObj kvs \<Rightarrow> Inr (case map_of kvs k of Some v \<Rightarrow> v | None \<Rightarrow> AVal JUndefined)
      | AVal (JObj i kvs) \<Rightarrow>
          Inr (case map_of kvs k of Some v \<Rightarrow> AVal v | None \<Rightarrow> AVal JUndefined)
      | AVal JUndefined \<Rightarrow> Inl (TypeError ''Cannot read property of undefined'')
      | AVal JNull \<Rightarrow> Inl (TypeError ''Cannot read property of null'')
      | _ \<Rightarrow> Inr (AVal JUndefined))"

definition obj_prop :: "(string \<times> jsval) list \<Rightarrow> string \<Rightarrow> jsval" where
  "obj_prop kvs k = (case map_of kvs k of Some v \<Rightarrow> v | None \<Rightarrow> JUndefined)"

text \<open>
  Modelled from the spec: \<open>Common.assertOptions\<close>, which is not under src. A builder call
  throws on an unknown option key, and on options that are not an options object.
\<close>

definition assertOptions :: "arg \<Rightarrow> string list \<Rightarrow> error + unit" where
  "assertOptions options keys =
     (case options of
        AObj kvs \<Rightarrow>
          (if list_all (\<lambda>k. k \<in> set keys) (map fst kvs) then Inr ()
           else Inl (AssertError ''Options contain unknown keys''))
      | AVal (JObj i kvs) \<Rightarrow>
          (if list_all (\<lambda>k. k \<in> set keys) (map fst kvs) then Inr ()
           else Inl (AssertError ''Options contain unknown keys''))
      | _ \<Rightarrow> Inl (AssertError ''Options must be of type object''))"

text \<open>
  \<open>$_compile\<close> (from a schema or a shorthand to a schema) and \<open>Compile.ref\<close> (from a
  reference or a key to a reference) are not under src and the specification does not
  describe them: the methods take them as parameters.
\<close>

record base_env =
  b_compile :: "heap \<Rightarrow> arg \<Rightarrow> error + heap \<times> addr"
  b_ref :: "arg \<Rightarrow> error + ref"

section \<open>The string type: builder methods\<close>

text \<open>\<open>internals.length\<close> and the methods \<open>length\<close>, \<open>max\<close> and \<open>min\<close>.\<close>

definition internals_length ::
  "str_env \<Rightarrow> heap \<Rightarrow> addr \<Rightarrow> string \<Rightarrow> limit_arg \<Rightarrow> operator \<Rightarrow> string option
   \<Rightarrow> error + heap \<times> addr" where
  "internals_length env h schema name limit operator encoding =
     (if \<not> (encoding = None \<or> encoding = Some []
             \<or> e_isEncoding env (case encoding of Some e \<Rightarrow> e | None \<Rightarrow> []))
      then Inl (AssertError ''Invalid encoding:'')
      else addRule env h schema
             \<lparr>r_name = name, r_method = ''length'', r_args = LengthArgs limit encoding,
              r_operator = Some operator, r_errorCode = None\<rparr>)"

definition rules_length ::
  "str_env \<Rightarrow> heap \<Rightarrow> addr \<Rightarrow> limit_arg \<Rightarrow> string option \<Rightarrow> error + heap \<times> addr" where
  "rules_length env h this limit encoding =
     internals_length env h this ''length'' limit OpEq encoding"

definition rules_max ::
  "str_env \<Rightarrow> heap \<Rightarrow> addr \<Rightarrow> limit_arg \<Rightarrow> string option \<Rightarrow> error + heap \<times> addr" where
  "rules_max env h this limit encoding =
     internals_length env h this ''max'' limit OpLe encoding"

definition rules_min ::
  "str_env \<Rightarrow> heap \<Rightarrow> addr \<Rightarrow> limit_arg \<Rightarrow> string option \<Rightarrow> error + heap \<times> addr" where
  "rules_min env h this limit encoding =
     internals_length env h this ''min'' limit OpGe encoding"

text \<open>\<open>rules.truncate.method\<close>.\<close>

definition rules_truncate :: "heap \<Rightarrow> addr \<Rightarrow> bool \<Rightarrow> error + heap \<times> addr" where
  "rules_truncate h this enabled = setFlag h this ''truncate'' (JBool enabled)"

text \<open>
  \<open>rules.pattern.method\<close>. The options default to \<open>{}\<close> and a string is the name: the
  entries of the options after that, \<open>None\<close> for options that are no object. The object
  the method makes for them is passed on as an options object.
\<close>

definition pattern_options :: "jsval \<Rightarrow> (string \<times> jsval) list option" where
  "pattern_options options0 =
     (case options0 of
        JUndefined \<Rightarrow> Some []
      | JStr s \<Rightarrow> Some [(''name'', JStr s)]
      | JObj i kvs \<Rightarrow> Some kvs
      | _ \<Rightarrow> None)"

definition rules_pattern ::
  "str_env \<Rightarrow> heap \<Rightarrow> addr \<Rightarrow> jsval \<Rightarrow> jsval \<Rightarrow> error + heap \<times> addr" where
  "rules_pattern env h this regex options0 =
     (case regex of
        JRegExp i source flags \<Rightarrow>
          (if CHR ''g'' \<in> set flags \<or> CHR ''y'' \<in> set flags then
             Inl (AssertError ''regex should not use global or sticky mode'')
           else
             (case pattern_options options0 of
                None \<Rightarrow> Inl (AssertError ''Options must be of type object'')
              | Some kvs \<Rightarrow>
                  and_then
                    (assertOptions (AObj (map (\<lambda>(k, v). (k, AVal v)) kvs)) [''invert'', ''name''])
                    (\<lambda>_. addRule env h this
                           \<lparr>r_name = ''pattern'', r_method = ''pattern'',
                            r_args = PatternArgs regex kvs, r_operator = None,
                            r_errorCode = Some (''string.pattern''
                              @ (if js_truthy (obj_prop kvs ''invert'') then ''.invert'' else [])
                              @ (if js_truthy (obj_prop kvs ''name'') then ''.name''
                                 else ''.base''))\<rparr>)))
      | _ \<Rightarrow> Inl (AssertError ''regex must be a RegExp''))"

text \<open>
  \<open>rules.replace.method\<close>. \<open>Hoek.escapeRegex\<close> is a function of another package. The
  pattern after \<open>new RegExp(Hoek.escapeRegex(pattern), 'g')\<close> for a string: its source and
  flags, \<open>None\<close> for a pattern that is no RegExp.
\<close>

definition replace_pattern :: "(string \<Rightarrow> string) \<Rightarrow> jsval \<Rightarrow> (string \<times> string) option" where
  "replace_pattern escapeRegex pattern0 =
     (case pattern0 of
        JStr s \<Rightarrow> Some (escapeRegex s, ''g'')
      | JRegExp i source flags \<Rightarrow> Some (source, flags)
      | _ \<Rightarrow> None)"

definition rules_replace ::
  "(string \<Rightarrow> string) \<Rightarrow> heap \<Rightarrow> addr \<Rightarrow> jsval \<Rightarrow> jsval \<Rightarrow> error + heap \<times> addr" where
  "rules_replace escapeRegex h this pattern0 replacement =
     (case replace_pattern escapeRegex pattern0 of
           Some (source, flags) \<Rightarrow>
             (case replacement of
                JStr r \<Rightarrow>
                  and_then (clone h this) (\<lambda>(h1, obj).
                  and_then (term_array h1 obj ''replacements'') (\<lambda>ao.
                  and_then
                    (case ao of
                       None \<Rightarrow>
                         (case alloc h1 (Array []) of
                            (h2, arr) \<Rightarrow> set_term h2 obj ''replacements'' arr)
                     | Some _ \<Rightarrow> Inr h1)
                    (\<lambda>h3.
                  and_then (push_term h3 obj ''replacements'' (IReplacement source flags r))
                    (\<lambda>h4. Inr (h4, obj)))))
              | _ \<Rightarrow> Inl (AssertError ''replacement must be a String''))
         | None \<Rightarrow> Inl (AssertError ''pattern must be a RegExp''))"

section \<open>The alternatives type: builder methods\<close>

text \<open>
  The \<open>rebuild\<close> hook: it flags the schema when a match holds an array schema. The
  registration of references (\<open>$_mutateRegister\<close>) leaves no trace in this model.
\<close>

definition match_has_array :: "heap \<Rightarrow> match \<Rightarrow> bool" where
  "match_has_array h m =
     list_ex (\<lambda>k. case k of Some a \<Rightarrow> type_at h a = Some ''array'' | None \<Rightarrow> False)
       [m_schema m, m_then m, m_otherwise m]"

definition rebuild :: "heap \<Rightarrow> addr \<Rightarrow> error + heap" where
  "rebuild h schema =
     (case view h schema of
        None \<Rightarrow> Inl (TypeError ''not a schema'')
      | Some s \<Rightarrow>
          (case terms_of s ''matches'' of
             None \<Rightarrow> Inl (TypeError ''schema.$_terms.matches is not iterable'')
           | Some items \<Rightarrow>
               (if list_ex (\<lambda>it. case it of IMatch m \<Rightarrow> match_has_array h m | _ \<Rightarrow> False) items
                then setFlag_here h schema ''_arrayItems'' (JBool True)
                else Inr h)))"

text \<open>
  Modelled from the spec: \<open>$_mutateRebuild\<close> of the base class, which is not under src. It
  recomputes on the object itself what depends on its terms, through the \<open>rebuild\<close> hook
  of the type, and returns the object.
\<close>

definition mutateRebuild :: "heap \<Rightarrow> addr \<Rightarrow> error + heap \<times> addr" where
  "mutateRebuild h this = and_then (rebuild h this) (\<lambda>h'. Inr (h', this))"

definition schema_match :: "addr \<Rightarrow> match" where
  "schema_match c = \<lparr>m_schema = Some c, m_ref = None, m_peek = None, m_is = None,
                      m_then = None, m_otherwise = None\<rparr>"

text \<open>\<open>this._flags._endedSwitch\<close>, as a condition.\<close>

definition ended_switch :: "heap \<Rightarrow> addr \<Rightarrow> error + bool" where
  "ended_switch h this =
     (case view h this of
        None \<Rightarrow> Inl (TypeError ''not a schema'')
      | Some s \<Rightarrow> Inr (js_truthy (flag s ''_endedSwitch'')))"

text \<open>\<open>rules.try.method\<close>: its loop, then the method.\<close>

fun try_loop :: "base_env \<Rightarrow> heap \<Rightarrow> addr \<Rightarrow> arg list \<Rightarrow> error + heap" where
  "try_loop B h obj [] = Inr h"
| "try_loop B h obj (x # xs) =
     and_then (b_compile B h x)
       (\<lambda>(h1, c). and_then (push_term h1 obj ''matches'' (IMatch (schema_match c)))
                     (\<lambda>h2. try_loop B h2 obj xs))"

definition try_method :: "base_env \<Rightarrow> heap \<Rightarrow> addr \<Rightarrow> arg \<Rightarrow> error + heap \<times> addr" where
  "try_method B h this schemas =
     (if \<not> arg_truthy schemas then Inl (AssertError ''Missing alternative schemas'')
      else
        and_then (ended_switch h this)
          (\<lambda>ended.
             if ended then Inl (AssertError ''Unreachable condition'')
             else
               and_then (clone h this)
                 (\<lambda>(h1, obj).
                    and_then
                      (try_loop B h1 obj
                         (case as_array schemas of Some xs \<Rightarrow> xs | None \<Rightarrow> [schemas]))
                      (\<lambda>h2. mutateRebuild h2 obj))))"

text \<open>\<open>overrides.when\<close>: the inner function \<open>normalize\<close>, the loop over the cases of a
  switch, then the method.\<close>

definition compile_opt :: "base_env \<Rightarrow> heap \<Rightarrow> arg \<Rightarrow> error + heap \<times> addr option" where
  "compile_opt B h x =
     (if is_undefined x then Inr (h, None)
      else and_then (b_compile B h x) (\<lambda>(h1, c). Inr (h1, Some c)))"

text \<open>The \<open>is\<close> of a match: compiled, and required unless it was given as a schema or a
  reference.\<close>

definition compile_is :: "base_env \<Rightarrow> heap \<Rightarrow> arg \<Rightarrow> error + heap \<times> addr option" where
  "compile_is B h s_is =
     (if \<not> is_undefined s_is then
        and_then (b_compile B h s_is)
          (\<lambda>(h1, c).
             if s_is = AVal JNull \<or> \<not> (is_ref s_is \<or> is_schema s_is) then
               and_then (required h1 c) (\<lambda>(h2, c'). Inr (h2, Some c'))
             else Inr (h1, Some c))
      else Inr (h, None))"

text \<open>\<open>if (item.then && item.otherwise) obj.$_setFlag('_endedSwitch', true, { clone: false })\<close>.\<close>

definition end_switch :: "heap \<Rightarrow> addr \<Rightarrow> addr option \<Rightarrow> addr option \<Rightarrow> error + heap" where
  "end_switch h obj th ow =
     (if th \<noteq> None \<and> ow \<noteq> None then setFlag_here h obj ''_endedSwitch'' (JBool True)
      else Inr h)"

definition normalize :: "base_env \<Rightarrow> heap \<Rightarrow> addr \<Rightarrow> arg \<Rightarrow> arg \<Rightarrow> error + heap \<times> match" where
  "normalize B h obj mtch settings =
     and_then (if \<not> is_schema mtch then and_then (b_ref B mtch) (\<lambda>r. Inr (Some r)) else Inr None)
       (\<lambda>rf.
     and_then (get_prop settings ''then'') (\<lambda>s_then.
     and_then (get_prop settings ''otherwise'') (\<lambda>s_otherwise.
     and_then (get_prop settings ''is'') (\<lambda>s_is.
     and_then (compile_opt B h s_then) (\<lambda>(h1, th).
     and_then (compile_opt B h1 s_otherwise) (\<lambda>(h2, ow).
     and_then (compile_is B h2 s_is) (\<lambda>(h3, is).
     and_then (end_switch h3 obj th ow) (\<lambda>h4.
       Inr (h4, \<lparr>m_schema = None, m_ref = rf,
                 m_peek = (case mtch of ASchema a \<Rightarrow> Some a | _ \<Rightarrow> None),
                 m_is = is, m_then = th, m_otherwise = ow\<rparr>)))))))))"

fun when_switch ::
  "base_env \<Rightarrow> heap \<Rightarrow> addr \<Rightarrow> arg \<Rightarrow> arg list \<Rightarrow> arg \<Rightarrow> error + heap" where
  "when_switch B h obj condition [] o_otherwise = Inr h"
| "when_switch B h obj condition (test # tests) o_otherwise =
     and_then (get_prop test ''is'') (\<lambda>t_is.
       if is_undefined t_is then Inl (AssertError ''Switch statement missing \"is\"'')
       else
     and_then (get_prop test ''then'') (\<lambda>t_then.
       if is_undefined t_then then Inl (AssertError ''Switch statement missing \"then\"'')
       else if tests \<noteq> [] then
         and_then (assertOptions test [''is'', ''then'']) (\<lambda>_.
         and_then (normalize B h obj condition test) (\<lambda>(h1, it).
         and_then (push_term h1 obj ''matches'' (IMatch it)) (\<lambda>h2.
           when_switch B h2 obj condition tests o_otherwise)))
       else
         and_then (assertOptions test [''is'', ''then'', ''otherwise'']) (\<lambda>_.
         and_then (get_prop test ''otherwise'') (\<lambda>t_otherwise.
           if \<not> (is_undefined o_otherwise \<or> is_undefined t_otherwise) then
             Inl (AssertError ''Cannot specify \"otherwise\" inside and outside a \"switch\"'')
           else
             and_then
               (normalize B h obj condition
                  (AObj [(''is'', t_is), (''then'', t_then),
                         (''otherwise'',
                          if \<not> is_undefined o_otherwise then o_otherwise else t_otherwise)]))
               (\<lambda>(h1, it). push_term h1 obj ''matches'' (IMatch it))))))"

text \<open>\<open>if (Array.isArray(options)) options = { switch: options }\<close>.\<close>

definition when_options :: "arg \<Rightarrow> arg" where
  "when_options options0 =
     (case as_array options0 of
        Some xs \<Rightarrow> AObj [(''switch'', AArr xs)]
      | None \<Rightarrow> options0)"

definition when_method ::
  "base_env \<Rightarrow> heap \<Rightarrow> addr \<Rightarrow> arg \<Rightarrow> arg \<Rightarrow> error + heap \<times> addr" where
  "when_method B h this condition options0 =
     (let options = when_options options0
      in
     and_then (assertOptions options [''is'', ''then'', ''otherwise'', ''switch'']) (\<lambda>_.
     and_then (ended_switch h this) (\<lambda>ended.
     and_then (get_prop options ''switch'') (\<lambda>o_switch.
     and_then (get_prop options ''is'') (\<lambda>o_is.
     and_then (get_prop options ''then'') (\<lambda>o_then.
     and_then (get_prop options ''otherwise'') (\<lambda>o_otherwise.
       if ended then Inl (AssertError ''Unreachable condition'')
       else if \<not> (is_ref condition \<or> is_string condition \<or> is_schema condition) then
         Inl (AssertError ''Invalid condition:'')
       else if \<not> (\<not> arg_truthy o_switch \<or> is_undefined o_is) then
         Inl (AssertError ''Cannot combine \"switch\" with \"is\"'')
       else if \<not> (\<not> arg_truthy o_switch \<or> is_undefined o_then) then
         Inl (AssertError ''Cannot combine \"switch\" with \"then\"'')
       else if is_undefined o_switch \<and> is_undefined o_then \<and> is_undefined o_otherwise then
         Inl (AssertError
                ''options must have at least one of \"then\", \"otherwise\", or \"switch\"'')
       else if \<not> (\<not> is_schema condition \<or> is_undefined o_is) then
         Inl (AssertError ''\"is\" can not be used with a schema condition'')
       else if \<not> (\<not> is_schema condition \<or> is_undefined o_switch) then
         Inl (AssertError ''\"switch\" can not be used with a schema condition'')
       else if \<not> (is_schema condition \<or> \<not> is_undefined o_is \<or> \<not> is_undefined o_switch) then
         Inl (AssertError ''Missing \"is\" or \"switch\" option'')
       else if \<not> (is_undefined o_switch \<or> as_array o_switch \<noteq> None) then
         Inl (AssertError ''\"switch\" must be an array'')
       else
         and_then (clone h this) (\<lambda>(h1, obj).
           if is_undefined o_switch then
             and_then (normalize B h1 obj condition options) (\<lambda>(h2, it).
             and_then (push_term h2 obj ''matches'' (IMatch it)) (\<lambda>h3.
               mutateRebuild h3 obj))
           else
             and_then
               (when_switch B h1 obj condition
                  (case as_array o_switch of Some xs \<Rightarrow> xs | None \<Rightarrow> []) o_otherwise)
               (\<lambda>h2. mutateRebuild h2 obj)))))))))"

text \<open>
  \<open>overrides.label\<close>. The method labels the schemas of its matches by their own \<open>label\<close>
  method, which for an alternatives schema is this method again: the recursion follows
  the store, so the model bounds it by a depth \<open>n\<close> and returns \<open>None\<close> where the depth
  is used up.
\<close>

definition and_then_opt ::
  "(error + 'a) option \<Rightarrow> ('a \<Rightarrow> (error + 'b) option) \<Rightarrow> (error + 'b) option" where
  "and_then_opt m f =
     (case m of None \<Rightarrow> None | Some (Inl e) \<Rightarrow> Some (Inl e) | Some (Inr x) \<Rightarrow> f x)"

type_synonym labeler = "heap \<Rightarrow> addr \<Rightarrow> (error + heap \<times> addr) option"

definition label_opt ::
  "labeler \<Rightarrow> heap \<Rightarrow> addr option \<Rightarrow> (error + heap \<times> addr option) option" where
  "label_opt lab h ao =
     (case ao of
        None \<Rightarrow> Some (Inr (h, None))
      | Some a \<Rightarrow> and_then_opt (lab h a) (\<lambda>(h1, a'). Some (Inr (h1, Some a'))))"

definition label_match :: "labeler \<Rightarrow> heap \<Rightarrow> item \<Rightarrow> (error + heap \<times> item) option" where
  "label_match lab h it =
     (case it of
        IReplacement p f r \<Rightarrow> Some (Inr (h, it))
      | IMatch m \<Rightarrow>
          (case m_schema m of
             Some c \<Rightarrow>
               and_then_opt (lab h c) (\<lambda>(h1, c'). Some (Inr (h1, IMatch (schema_match c'))))
           | None \<Rightarrow>
               and_then_opt (label_opt lab h (m_then m)) (\<lambda>(h1, th).
               and_then_opt (label_opt lab h1 (m_otherwise m)) (\<lambda>(h2, ow).
                 Some (Inr (h2, IMatch (m\<lparr>m_then := th, m_otherwise := ow\<rparr>)))))))"

fun label_items :: "labeler \<Rightarrow> heap \<Rightarrow> item list \<Rightarrow> (error + heap \<times> item list) option" where
  "label_items lab h [] = Some (Inr (h, []))"
| "label_items lab h (it # items) =
     and_then_opt (label_match lab h it) (\<lambda>(h1, it').
     and_then_opt (label_items lab h1 items) (\<lambda>(h2, its).
       Some (Inr (h2, it' # its))))"

fun alloc_items :: "heap \<Rightarrow> item list \<Rightarrow> heap \<times> addr list" where
  "alloc_items h [] = (h, [])"
| "alloc_items h (it # items) =
     (case alloc h (Item it) of
        (h1, a) \<Rightarrow> (case alloc_items h1 items of (h2, as) \<Rightarrow> (h2, a # as)))"

definition matches_of :: "heap \<Rightarrow> addr \<Rightarrow> error + item list" where
  "matches_of h this =
     (case view h this of
        None \<Rightarrow> Inl (TypeError ''not a schema'')
      | Some s \<Rightarrow>
          (case terms_of s ''matches'' of
             None \<Rightarrow> Inl (TypeError ''Cannot read property map of null'')
           | Some items \<Rightarrow> Inr items))"

definition overrides_label ::
  "(heap \<Rightarrow> addr \<Rightarrow> string \<Rightarrow> (error + heap \<times> addr) option)
   \<Rightarrow> heap \<Rightarrow> addr \<Rightarrow> string \<Rightarrow> (error + heap \<times> addr) option" where
  "overrides_label lab h this name =
     and_then_opt (Some (base_label h this name)) (\<lambda>(h1, obj).
     and_then_opt (Some (matches_of h1 obj)) (\<lambda>items.
     and_then_opt (label_items (\<lambda>h c. lab h c name) h1 items) (\<lambda>(h2, items').
       case alloc_items h2 items' of
         (h3, as) \<Rightarrow>
           (case alloc h3 (Array as) of
              (h4, arr) \<Rightarrow>
                Some (and_then (set_term h4 obj ''matches'' arr) (\<lambda>h5. Inr (h5, obj)))))))"

fun label :: "nat \<Rightarrow> heap \<Rightarrow> addr \<Rightarrow> string \<Rightarrow> (error + heap \<times> addr) option" where
  "label 0 h this name = None"
| "label (Suc n) h this name =
     (if type_at h this = Some ''alternatives'' then overrides_label (label n) h this name
      else Some (base_label h this name))"

section \<open>Describing a schema\<close>

text \<open>
  Modelled from the spec: \<open>describe\<close> of a schema, which is not under src. The descriptor is
  a plain structure with the type, the flags, the rules and the terms that are not empty,
  each entry of a term described in turn, a schema in it by its own descriptor and a
  reference by \<open>Ref.describe\<close>. The descent follows the store and is bounded by a depth.
\<close>

datatype desc =
    Desc string "(string \<times> jsval) list" "rule list" "(string \<times> term_desc list) list"
and term_desc =
    DReplacement string string string
  | DMatch "desc option" "ref_desc option" "desc option" "desc option" "desc option" "desc option"

definition describe_opt ::
  "(addr \<Rightarrow> desc option) \<Rightarrow> addr option \<Rightarrow> desc option option" where
  "describe_opt d ao =
     (case ao of None \<Rightarrow> Some None | Some a \<Rightarrow> map_option Some (d a))"

definition describe_item :: "(addr \<Rightarrow> desc option) \<Rightarrow> item \<Rightarrow> term_desc option" where
  "describe_item d it =
     (case it of
        IReplacement p f r \<Rightarrow> Some (DReplacement p f r)
      | IMatch m \<Rightarrow>
          (case (describe_opt d (m_schema m), describe_opt d (m_peek m), describe_opt d (m_is m),
                 describe_opt d (m_then m), describe_opt d (m_otherwise m)) of
             (Some sc, Some pk, Some is, Some th, Some ow) \<Rightarrow>
               Some (DMatch sc (map_option describe (m_ref m)) pk is th ow)
           | _ \<Rightarrow> None))"

definition describe_terms ::
  "(addr \<Rightarrow> desc option) \<Rightarrow> (string \<times> item list option) list
   \<Rightarrow> (string \<times> term_desc list) list option" where
  "describe_terms d ts =
     those (map (\<lambda>(k, items). map_option (Pair k)
                     (those (map (describe_item d) (case items of Some xs \<Rightarrow> xs | None \<Rightarrow> []))))
              (filter (\<lambda>(k, items). items \<noteq> None \<and> items \<noteq> Some []) ts))"

fun describe_schema :: "nat \<Rightarrow> heap \<Rightarrow> addr \<Rightarrow> desc option" where
  "describe_schema 0 h a = None"
| "describe_schema (Suc n) h a =
     (case view h a of
        None \<Rightarrow> None
      | Some s \<Rightarrow>
          map_option (Desc (s_type s) (s_flags s) (s_rules s))
            (describe_terms (describe_schema n h) (s_terms s)))"

section \<open>The validation of a node\<close>

text \<open>
  Modelled from the spec: the base type check of the number type, which is not under src:
  a value that is not a number fails with the type's \<open>base\<close> code.
\<close>

definition number_validate :: "jsval \<Rightarrow> vresult option" where
  "number_validate value =
     (case value of
        JNum n \<Rightarrow> None
      | _ \<Rightarrow> Some \<lparr>v_value = Some value, v_errors = ErrOne (Report ''number.base'' NoContext)\<rparr>)"

definition base_validate :: "schema \<Rightarrow> jsval \<Rightarrow> vresult option" where
  "base_validate s value =
     (if s_type s = ''string'' then string_validate value
      else if s_type s = ''number'' then number_validate value
      else None)"

text \<open>
  Modelled from the spec: the resolution of a reference argument before a rule runs, part
  of \<open>$_validate\<close>, which is not under src. A reference argument is resolved against the
  current state immediately before the rule's \<open>validate\<close>; a resolved value that fails the
  assertion of the argument is the error \<open>any.ref\<close>, as in the truncate branch of the
  source.
\<close>

definition resolve_limit ::
  "str_env \<Rightarrow> reach_fn \<Rightarrow> limit_arg \<Rightarrow> jsval \<Rightarrow> vstate \<Rightarrow> prefs \<Rightarrow> error + (error_item + int)" where
  "resolve_limit env reach l value state prefs =
     (case l of
        LimitNum n \<Rightarrow> Inr (Inr n)
      | LimitRef r \<Rightarrow>
          and_then (resolve reach r value state prefs JUndefined \<lparr>shadow_off = False\<rparr>)
            (\<lambda>v. case v of
                   JNum n \<Rightarrow> (if e_limit env n then Inr (Inr n) else Inr (Inl (limit_ref_error r)))
                 | _ \<Rightarrow> Inr (Inl (limit_ref_error r))))"

text \<open>
  Modelled from the spec: the execution of the ruleset, part of \<open>$_validate\<close>, which is not
  under src. The rules run in the order they were attached, and the first rule that fails
  stops the node with that one error. The rules of the length family run
  \<open>rules.length.validate\<close>; the \<open>validate\<close> of every other rule is the parameter \<open>other\<close>.
\<close>

fun run_rules ::
  "str_env \<Rightarrow> (rule \<Rightarrow> jsval \<Rightarrow> error_item option) \<Rightarrow> reach_fn \<Rightarrow> rule list \<Rightarrow> jsval
   \<Rightarrow> vstate \<Rightarrow> prefs \<Rightarrow> error + vresult" where
  "run_rules env other reach [] value state prefs =
     Inr \<lparr>v_value = Some value, v_errors = NoErrors\<rparr>"
| "run_rules env other reach (rule # rules) value state prefs =
     (case (r_method rule = ''length'', r_args rule, value) of
        (True, LengthArgs l encoding, JStr s) \<Rightarrow>
          and_then (resolve_limit env reach l value state prefs)
            (\<lambda>lim. case lim of
                     Inl e \<Rightarrow> Inr \<lparr>v_value = Some value, v_errors = ErrMany [e]\<rparr>
                   | Inr n \<Rightarrow>
                       (case rules_length_validate env s n encoding rule of
                          Pass v \<Rightarrow> run_rules env other reach rules (JStr v) state prefs
                        | Fail e \<Rightarrow> Inr \<lparr>v_value = Some value, v_errors = ErrMany [e]\<rparr>))
      | _ \<Rightarrow>
          (case other rule value of
             None \<Rightarrow> run_rules env other reach rules value state prefs
           | Some e \<Rightarrow> Inr \<lparr>v_value = Some value, v_errors = ErrMany [e]\<rparr>))"

text \<open>
  Modelled from the spec: \<open>$_validate\<close> of a string or number schema on a defined value,
  which is not under src, in its steps 4 to 6: if \<open>prefs.convert\<close>, the coerce hook of the
  type (the string type has one, for string values); the base type check; the ruleset. A
  failure is returned as \<open>errors\<close>, an array of reports.
\<close>

definition validate_node ::
  "str_env \<Rightarrow> (rule \<Rightarrow> jsval \<Rightarrow> error_item option) \<Rightarrow> reach_fn \<Rightarrow> schema \<Rightarrow> jsval
   \<Rightarrow> vstate \<Rightarrow> prefs \<Rightarrow> error + vresult" where
  "validate_node env other reach s value state prefs =
     and_then
       (case (prefs_convert prefs \<and> s_type s = ''string'', value) of
          (True, JStr v) \<Rightarrow> coerce env reach s v state prefs
        | _ \<Rightarrow> Inr \<lparr>v_value = Some value, v_errors = NoErrors\<rparr>)
       (\<lambda>c. case v_errors c of
               ErrOne e \<Rightarrow> Inr \<lparr>v_value = v_value c, v_errors = ErrMany [e]\<rparr>
             | ErrMany es \<Rightarrow> Inr c
             | NoErrors \<Rightarrow>
                 (let v = (case v_value c of Some x \<Rightarrow> x | None \<Rightarrow> value)
                  in case base_validate s v of
                       Some b \<Rightarrow>
                         Inr \<lparr>v_value = v_value b,
                              v_errors = (case v_errors b of ErrOne e \<Rightarrow> ErrMany [e] | es \<Rightarrow> es)\<rparr>
                     | None \<Rightarrow> run_rules env other reach (s_rules s) v state prefs))"

text \<open>The validation of the schema at an address of the store, as a branch of an
  alternatives schema.\<close>

definition validate_at ::
  "str_env \<Rightarrow> (rule \<Rightarrow> jsval \<Rightarrow> error_item option) \<Rightarrow> reach_fn \<Rightarrow> heap \<Rightarrow> branch_fn" where
  "validate_at env other reach h a value state prefs =
     (case view h a of
        None \<Rightarrow> Inl (TypeError ''$_validate is not a function'')
      | Some s \<Rightarrow> validate_node env other reach s value state prefs)"


section \<open>Scenarios\<close>

text \<open>
  Stand-ins for the parameters, where an example is evaluated: string functions that
  leave the value alone, no string taken for a date, the byte length of an ASCII string,
  the non-negative safe integers as limits; a \<open>$_compile\<close> that returns a schema as it is,
  and a \<open>Compile.ref\<close> that returns a reference as it is and creates one from a key.
\<close>

definition plain_env :: str_env where
  "plain_env =
     \<lparr>e_normalize = (\<lambda>form v. v), e_upper = (\<lambda>v. v), e_lower = (\<lambda>v. v),
      e_replace = (\<lambda>p f r v. v), e_isoDate = (\<lambda>v. None),
      e_byteLength = (\<lambda>v enc. length v), e_isEncoding = (\<lambda>enc. enc = ''utf8''),
      e_limit = (\<lambda>n. 0 \<le> n \<and> n \<le> 9007199254740991)\<rparr>"

definition schema_compile :: base_env where
  "schema_compile =
     \<lparr>b_compile = (\<lambda>h x. case x of ASchema a \<Rightarrow> Inr (h, a)
                           | _ \<Rightarrow> Inl (AssertError ''Invalid schema content'')),
      b_ref = (\<lambda>x. case x of ARef r \<Rightarrow> Inr r
                     | AVal (JStr k) \<Rightarrow> create k no_options
                     | _ \<Rightarrow> Inl (AssertError ''Invalid reference key''))\<rparr>"

definition no_state :: vstate where
  "no_state = \<lparr>ancestors = [], shadow = None\<rparr>"

definition context_prefs :: "jsval \<Rightarrow> prefs" where
  "context_prefs c = \<lparr>prefs_context = c, prefs_convert = True\<rparr>"

text \<open>The schema \<open>string().min(n)\<close>, and the rule that \<open>min(n)\<close> attaches.\<close>

definition string_min :: "str_env \<Rightarrow> int \<Rightarrow> error + heap \<times> addr" where
  "string_min env n =
     (case new_schema [] ''string'' of (h, s) \<Rightarrow> rules_min env h s (LimitNum n) None)"

definition min_rule :: "int \<Rightarrow> rule" where
  "min_rule n = \<lparr>r_name = ''min'', r_method = ''length'', r_args = LengthArgs (LimitNum n) None,
                 r_operator = Some OpGe, r_errorCode = None\<rparr>"

text \<open>
  The schema \<open>alternatives().try([number(), string().min(3)])\<close> (the source's \<open>try\<close> takes
  its alternatives as one array), the store it is built in, and the two errors its
  branches report on \<open>"ab"\<close>.
\<close>

definition try_number_string_min :: "str_env \<Rightarrow> base_env \<Rightarrow> error + heap \<times> addr" where
  "try_number_string_min env B =
     (case new_schema [] ''number'' of
        (h1, num) \<Rightarrow>
          (case new_schema h1 ''string'' of
             (h2, str) \<Rightarrow>
               and_then (rules_min env h2 str (LimitNum 3) None)
                 (\<lambda>(h3, str3).
                    case new_schema h3 ''alternatives'' of
                      (h4, alt) \<Rightarrow> try_method B h4 alt (AArr [ASchema num, ASchema str3]))))"

definition try_heap :: heap where
  "try_heap =
     [Flags [], Terms [], Node ''number'' 0 1 [],
      Flags [], Terms [(''replacements'', None)], Node ''string'' 3 4 [],
      Flags [], Terms [(''replacements'', None)], Node ''string'' 6 7 [min_rule 3],
      Flags [], Array [], Terms [(''matches'', Some 10)], Node ''alternatives'' 9 11 [],
      Flags [], Array [17, 18], Terms [(''matches'', Some 14)], Node ''alternatives'' 13 15 [],
      Item (IMatch (schema_match 2)), Item (IMatch (schema_match 8))]"

definition number_base :: error_item where
  "number_base = Report ''number.base'' NoContext"

definition string_min_ab :: error_item where
  "string_min_ab =
     Report ''string.min''
       (Local [(''limit'', CVal (JNum 3)), (''value'', CVal (JStr ''ab'')),
               (''encoding'', CVal JUndefined)])"

text \<open>
  The value the truncate branch of \<open>coerce\<close> receives: the value after normalize, case,
  trim, the replacements, the hex padding and the ISO date conversion, in that order;
  \<open>None\<close> where the isoDate rule rejects the value and \<open>coerce\<close> returns that error.
\<close>

definition before_truncate :: "str_env \<Rightarrow> schema \<Rightarrow> string \<Rightarrow> string option" where
  "before_truncate env s value =
     (let v = coerce_hex s (coerce_replace env s (coerce_trim s
                (coerce_case env s (coerce_normalize env s value))))
      in if getRule s ''isoDate'' \<noteq> None then e_isoDate env v else Some v)"

text \<open>
  \<open>string().isoDate().max(2).truncate()\<close> and \<open>string().max(l).truncate()\<close> as validation
  reads them, and the reference \<open>$n\<close> to the context.
\<close>

definition iso_max_schema :: schema where
  "iso_max_schema =
     \<lparr>s_type = ''string'', s_flags = [(''truncate'', JBool True)],
      s_rules = [\<lparr>r_name = ''isoDate'', r_method = ''isoDate'', r_args = NoArgs,
                  r_operator = None, r_errorCode = None\<rparr>,
                 \<lparr>r_name = ''max'', r_method = ''length'', r_args = LengthArgs (LimitNum 2) None,
                  r_operator = Some OpLe, r_errorCode = None\<rparr>],
      s_terms = [(''replacements'', None)]\<rparr>"

definition max_schema :: "limit_arg \<Rightarrow> schema" where
  "max_schema l =
     \<lparr>s_type = ''string'', s_flags = [(''truncate'', JBool True)],
      s_rules = [\<lparr>r_name = ''max'', r_method = ''length'', r_args = LengthArgs l None,
                  r_operator = Some OpLe, r_errorCode = None\<rparr>],
      s_terms = [(''replacements'', None)]\<rparr>"

definition global_n :: ref where
  "global_n =
     \<lparr>adjust = None, ancestor = None, iterables = None, map_r = None, path = [Some ''n''],
      separator = SepChar CHR ''.'', type = TGlobal, depth = 1, key = Some ''n'',
      root = Some (Some ''n''), display = ''ref:global:n''\<rparr>"

section \<open>The string type: length rules and truncation\<close>

lemma string_min_value:
  assumes "e_limit env n"
  shows "string_min env n =
           Inr ([Flags [], Terms [(''replacements'', None)], Node ''string'' 0 1 [],
                 Flags [], Terms [(''replacements'', None)], Node ''string'' 3 4 [min_rule n]], 5)"
  using assms
  by (simp add: string_min_def new_schema_def alloc_def rules_min_def internals_length_def
      addRule_def args_ok_def clone_def cell_at_def and_then_def rule_multi_def min_rule_def)

lemma string_min_view:
  "view [Flags [], Terms [(''replacements'', None)], Node ''string'' 0 1 [],
         Flags [], Terms [(''replacements'', None)], Node ''string'' 3 4 [min_rule n]] 5
   = Some \<lparr>s_type = ''string'', s_flags = [], s_rules = [min_rule n],
           s_terms = [(''replacements'', None)]\<rparr>"
  by (simp add: view_def cell_at_def read_term_def)

lemma coerce_plain:
  assumes "s_flags s = []" and "s_rules s = [min_rule n]" and "s_terms s = [(''replacements'', None)]"
  shows "coerce env reach s v st prefs = Inr \<lparr>v_value = Some (JStr v), v_errors = NoErrors\<rparr>"
  using assms
  by (simp add: coerce_def coerce_normalize_def coerce_case_def coerce_trim_def coerce_replace_def
      coerce_hex_def coerce_truncate_def getRule_def min_rule_def terms_of_def flag_def js_truthy_def)

lemma validate_min:
  assumes "s_type s = ''string''" and "s_flags s = []" and "s_rules s = [min_rule n]"
    and "s_terms s = [(''replacements'', None)]" and "v \<noteq> []"
  shows "validate_node env other reach s (JStr v) st prefs =
           (if n \<le> int (length v) then Inr \<lparr>v_value = Some (JStr v), v_errors = NoErrors\<rparr>
            else Inr \<lparr>v_value = Some (JStr v),
                      v_errors = ErrMany [Report ''string.min''
                        (Local [(''limit'', CVal (JNum n)), (''value'', CVal (JStr v)),
                                (''encoding'', CVal JUndefined)])]\<rparr>)"
  using assms coerce_plain [OF assms(2,3,4), of env reach v st prefs]
  by (cases "prefs_convert prefs")
    (simp_all add: validate_node_def and_then_def base_validate_def string_validate_def
      resolve_limit_def rules_length_validate_def compare_def min_rule_def limit_cval_def Let_def)

lemma length_validate_compare:
  "rules_length_validate env value limit encoding
     \<lparr>r_name = name, r_method = ''length'', r_args = LengthArgs l encoding,
      r_operator = Some operator, r_errorCode = None\<rparr>
   = (if compare (case encoding of
                    Some enc \<Rightarrow> (if enc \<noteq> [] then int (e_byteLength env value enc)
                                  else int (length value))
                  | None \<Rightarrow> int (length value)) limit operator
      then Pass value
      else Fail (Report (''string.'' @ name)
             (Local [(''limit'', limit_cval l), (''value'', CVal (JStr value)),
                     (''encoding'', (case encoding of Some enc \<Rightarrow> CVal (JStr enc)
                                     | None \<Rightarrow> CVal JUndefined))])))"
  by (simp add: rules_length_validate_def Let_def)

text \<open>
  C5. The schema \<open>string().min(2)\<close> rejects \<open>"a"\<close> with the code \<open>string.min\<close> and a
  context whose limit is 2, and accepts \<open>"ab"\<close>, returning it unchanged; the rule it holds
  records the operator \<open>>=\<close>. In general \<open>rules.length.validate\<close> compares the length of
  the string, or its byte length under an encoding, with the limit by the operator the
  rule records, and \<open>min\<close>, \<open>max\<close> and \<open>length\<close> record \<open>>=\<close>, \<open><=\<close> and \<open>=\<close>.
\<close>

theorem string_min_scenario:
  assumes "e_limit env 2"
  shows "(\<exists>h S s. string_min env 2 = Inr (h, S) \<and> view h S = Some s
            \<and> s_type s = ''string'' \<and> s_rules s = [min_rule 2]
            \<and> (\<forall>other reach st prefs.
                  validate_node env other reach s (JStr ''a'') st prefs =
                    Inr \<lparr>v_value = Some (JStr ''a''),
                         v_errors = ErrMany [Report ''string.min''
                           (Local [(''limit'', CVal (JNum 2)), (''value'', CVal (JStr ''a'')),
                                   (''encoding'', CVal JUndefined)])]\<rparr>
                \<and> validate_node env other reach s (JStr ''ab'') st prefs =
                    Inr \<lparr>v_value = Some (JStr ''ab''), v_errors = NoErrors\<rparr>))
       \<and> (\<forall>value limit encoding name l operator.
             rules_length_validate env value limit encoding
               \<lparr>r_name = name, r_method = ''length'', r_args = LengthArgs l encoding,
                r_operator = Some operator, r_errorCode = None\<rparr>
             = (if (let len = (case encoding of
                                 Some enc \<Rightarrow> (if enc \<noteq> [] then int (e_byteLength env value enc)
                                               else int (length value))
                               | None \<Rightarrow> int (length value))
                    in case operator of OpGe \<Rightarrow> len \<ge> limit | OpLe \<Rightarrow> len \<le> limit
                       | OpEq \<Rightarrow> len = limit)
                then Pass value
                else Fail (Report (''string.'' @ name)
                       (Local [(''limit'', limit_cval l), (''value'', CVal (JStr value)),
                               (''encoding'', (case encoding of Some enc \<Rightarrow> CVal (JStr enc)
                                               | None \<Rightarrow> CVal JUndefined))]))))
       \<and> (\<forall>h this l enc.
             rules_min env h this l enc = internals_length env h this ''min'' l OpGe enc
           \<and> rules_max env h this l enc = internals_length env h this ''max'' l OpLe enc
           \<and> rules_length env h this l enc = internals_length env h this ''length'' l OpEq enc)"
proof (intro conjI)
  let ?h = "[Flags [], Terms [(''replacements'', None)], Node ''string'' 0 1 [],
             Flags [], Terms [(''replacements'', None)], Node ''string'' 3 4 [min_rule 2]]"
  let ?s = "\<lparr>s_type = ''string'', s_flags = [], s_rules = [min_rule 2],
             s_terms = [(''replacements'', None)]\<rparr>"
  have b: "string_min env 2 = Inr (?h, 5)"
    using assms by (rule string_min_value)
  have v: "view ?h 5 = Some ?s"
    by (rule string_min_view)
  have a: "validate_node env other reach ?s (JStr ''a'') st prefs =
             Inr \<lparr>v_value = Some (JStr ''a''),
                  v_errors = ErrMany [Report ''string.min''
                    (Local [(''limit'', CVal (JNum 2)), (''value'', CVal (JStr ''a'')),
                            (''encoding'', CVal JUndefined)])]\<rparr>"
    for other reach st prefs
    using validate_min [of ?s 2 "''a''" env other reach st prefs] by simp
  have ab: "validate_node env other reach ?s (JStr ''ab'') st prefs =
              Inr \<lparr>v_value = Some (JStr ''ab''), v_errors = NoErrors\<rparr>"
    for other reach st prefs
    using validate_min [of ?s 2 "''ab''" env other reach st prefs] by simp
  show "\<exists>h S s. string_min env 2 = Inr (h, S) \<and> view h S = Some s
            \<and> s_type s = ''string'' \<and> s_rules s = [min_rule 2]
            \<and> (\<forall>other reach st prefs.
                  validate_node env other reach s (JStr ''a'') st prefs =
                    Inr \<lparr>v_value = Some (JStr ''a''),
                         v_errors = ErrMany [Report ''string.min''
                           (Local [(''limit'', CVal (JNum 2)), (''value'', CVal (JStr ''a'')),
                                   (''encoding'', CVal JUndefined)])]\<rparr>
                \<and> validate_node env other reach s (JStr ''ab'') st prefs =
                    Inr \<lparr>v_value = Some (JStr ''ab''), v_errors = NoErrors\<rparr>)"
    using b v a ab by (intro exI [of _ ?h] exI [of _ 5] exI [of _ ?s]) simp
next
  show "\<forall>value limit encoding name l operator.
             rules_length_validate env value limit encoding
               \<lparr>r_name = name, r_method = ''length'', r_args = LengthArgs l encoding,
                r_operator = Some operator, r_errorCode = None\<rparr>
             = (if (let len = (case encoding of
                                 Some enc \<Rightarrow> (if enc \<noteq> [] then int (e_byteLength env value enc)
                                               else int (length value))
                               | None \<Rightarrow> int (length value))
                    in case operator of OpGe \<Rightarrow> len \<ge> limit | OpLe \<Rightarrow> len \<le> limit
                       | OpEq \<Rightarrow> len = limit)
                then Pass value
                else Fail (Report (''string.'' @ name)
                       (Local [(''limit'', limit_cval l), (''value'', CVal (JStr value)),
                               (''encoding'', (case encoding of Some enc \<Rightarrow> CVal (JStr enc)
                                               | None \<Rightarrow> CVal JUndefined))])))"
    by (auto simp: length_validate_compare compare_def Let_def split: operator.splits)
next
  show "\<forall>h this l enc.
             rules_min env h this l enc = internals_length env h this ''min'' l OpGe enc
           \<and> rules_max env h this l enc = internals_length env h this ''max'' l OpLe enc
           \<and> rules_length env h this l enc = internals_length env h this ''length'' l OpEq enc"
    by (simp add: rules_min_def rules_max_def rules_length_def)
qed

theorem string_min_scenario_witness:
  "e_limit plain_env 2
   \<and> string_min plain_env 2 =
       Inr ([Flags [], Terms [(''replacements'', None)], Node ''string'' 0 1 [],
             Flags [], Terms [(''replacements'', None)], Node ''string'' 3 4 [min_rule 2]], 5)
   \<and> (\<exists>h S s. string_min plain_env 2 = Inr (h, S) \<and> view h S = Some s
         \<and> validate_node plain_env (\<lambda>r v. None) reach_plain s (JStr ''a'')
              \<lparr>ancestors = [], shadow = None\<rparr>
              \<lparr>prefs_context = JUndefined, prefs_convert = True\<rparr>
            = Inr \<lparr>v_value = Some (JStr ''a''),
                   v_errors = ErrMany [Report ''string.min''
                     (Local [(''limit'', CVal (JNum 2)), (''value'', CVal (JStr ''a'')),
                             (''encoding'', CVal JUndefined)])]\<rparr>
         \<and> validate_node plain_env (\<lambda>r v. None) reach_plain s (JStr ''ab'')
              \<lparr>ancestors = [], shadow = None\<rparr>
              \<lparr>prefs_context = JUndefined, prefs_convert = True\<rparr>
            = Inr \<lparr>v_value = Some (JStr ''ab''), v_errors = NoErrors\<rparr>)"
proof -
  have l: "e_limit plain_env 2"
    by (simp add: plain_env_def)
  from string_min_scenario [OF l] obtain h S s
    where "string_min plain_env 2 = Inr (h, S)" "view h S = Some s"
      and "\<forall>other reach st prefs.
             validate_node plain_env other reach s (JStr ''a'') st prefs =
               Inr \<lparr>v_value = Some (JStr ''a''),
                    v_errors = ErrMany [Report ''string.min''
                      (Local [(''limit'', CVal (JNum 2)), (''value'', CVal (JStr ''a'')),
                              (''encoding'', CVal JUndefined)])]\<rparr>
           \<and> validate_node plain_env other reach s (JStr ''ab'') st prefs =
               Inr \<lparr>v_value = Some (JStr ''ab''), v_errors = NoErrors\<rparr>"
    by blast
  then show ?thesis
    using l string_min_value [OF l] by auto
qed

subsection \<open>Truncation\<close>

lemma coerce_before:
  "coerce env reach s value st prefs =
     (case before_truncate env s value of
        Some v \<Rightarrow> coerce_truncate env reach s v st prefs
      | None \<Rightarrow>
          Inr \<lparr>v_value = Some (JStr (coerce_hex s (coerce_replace env s (coerce_trim s
                                  (coerce_case env s (coerce_normalize env s value)))))),
               v_errors = ErrOne (Report ''string.isoDate'' NoContext)\<rparr>)"
  by (simp add: coerce_def before_truncate_def Let_def split: option.splits)

lemma slice0_take: "0 \<le> n \<Longrightarrow> js_slice0 v n = take (nat n) v"
  by (simp add: js_slice0_def)

lemma resolve_exceeds_root:
  "exceeds_root r st
   \<Longrightarrow> resolve reach r v st prefs local ro
       = Inl (AssertError ''Invalid reference exceeds the schema root'')"
  by (simp add: resolve_cases exceeds_root_iff)

lemma resolve_within_root:
  "\<not> exceeds_root r st \<Longrightarrow> \<exists>x. resolve reach r v st prefs local ro = Inr x"
  by (simp add: resolve_cases exceeds_root_iff)

text \<open>
  C9, as amended. When the truncate flag is set, a max rule exists and no isoDate rule
  rejects the value first (\<open>before_truncate\<close> yields \<open>v\<close>, the value after normalize, case,
  trim and the replacements), \<open>coerce\<close> does one of three things. For a literal limit it
  returns \<open>v\<close> sliced to the limit, of a length at most the limit when the limit is not
  negative. For a limit that is a reference whose depth exceeds the schema root it
  throws, as \<open>resolve\<close> does. For a reference that resolves, to a valid limit it returns
  \<open>v\<close> sliced in the same way, and to a value that is not a valid limit it returns \<open>v\<close>
  with the error \<open>any.ref\<close>, neither cutting nor throwing.
\<close>

theorem truncate_to_max:
  assumes tr: "js_truthy (flag s ''truncate'')"
    and mx: "getRule s ''max'' = Some rule"
    and ar: "r_args rule = LengthArgs l enc"
    and bt: "before_truncate env s value = Some v"
  shows "(\<forall>n. l = LimitNum n \<longrightarrow>
            coerce env reach s value st prefs
              = Inr \<lparr>v_value = Some (JStr (js_slice0 v n)), v_errors = NoErrors\<rparr>
            \<and> (0 \<le> n \<longrightarrow> js_slice0 v n = take (nat n) v \<and> int (length (js_slice0 v n)) \<le> n))
       \<and> (\<forall>r. l = LimitRef r \<and> exceeds_root r st \<longrightarrow>
            coerce env reach s value st prefs
              = Inl (AssertError ''Invalid reference exceeds the schema root''))
       \<and> (\<forall>r. l = LimitRef r \<and> \<not> exceeds_root r st \<longrightarrow>
            (\<exists>x. resolve reach r (JStr v) st prefs JUndefined \<lparr>shadow_off = False\<rparr> = Inr x
               \<and> (\<not> common_limit env x \<longrightarrow>
                    coerce env reach s value st prefs
                      = Inr \<lparr>v_value = Some (JStr v), v_errors = ErrOne (limit_ref_error r)\<rparr>)
               \<and> (\<forall>n. x = JNum n \<and> e_limit env n \<longrightarrow>
                    coerce env reach s value st prefs
                      = Inr \<lparr>v_value = Some (JStr (js_slice0 v n)), v_errors = NoErrors\<rparr>
                    \<and> (0 \<le> n \<longrightarrow> js_slice0 v n = take (nat n) v
                                \<and> int (length (js_slice0 v n)) \<le> n))))"
proof -
  have c: "coerce env reach s value st prefs = coerce_truncate env reach s v st prefs"
    using bt by (simp add: coerce_before)
  have 1: "coerce_truncate env reach s v st prefs
              = Inr \<lparr>v_value = Some (JStr (js_slice0 v n)), v_errors = NoErrors\<rparr>"
    if "l = LimitNum n" for n
    using that tr mx ar by (simp add: coerce_truncate_def)
  have sl: "0 \<le> n \<longrightarrow> js_slice0 v n = take (nat n) v \<and> int (length (js_slice0 v n)) \<le> n" for n
    by (auto simp: slice0_take)
  have 2: "coerce_truncate env reach s v st prefs
              = Inl (AssertError ''Invalid reference exceeds the schema root'')"
    if "l = LimitRef r" "exceeds_root r st" for r
    using that tr mx ar by (simp add: coerce_truncate_def resolve_exceeds_root)
  have 3: "\<exists>x. resolve reach r (JStr v) st prefs JUndefined \<lparr>shadow_off = False\<rparr> = Inr x
               \<and> (\<not> common_limit env x \<longrightarrow>
                    coerce_truncate env reach s v st prefs
                      = Inr \<lparr>v_value = Some (JStr v), v_errors = ErrOne (limit_ref_error r)\<rparr>)
               \<and> (\<forall>n. x = JNum n \<and> e_limit env n \<longrightarrow>
                    coerce_truncate env reach s v st prefs
                      = Inr \<lparr>v_value = Some (JStr (js_slice0 v n)), v_errors = NoErrors\<rparr>)"
    if "l = LimitRef r" "\<not> exceeds_root r st" for r
  proof -
    from resolve_within_root [OF that(2)] obtain x where
      x: "resolve reach r (JStr v) st prefs JUndefined \<lparr>shadow_off = False\<rparr> = Inr x" by blast
    with that(1) tr mx ar show ?thesis
      by (auto simp: coerce_truncate_def common_limit_def)
  qed
  show ?thesis
    unfolding c using 1 2 3 sl by blast
qed

theorem truncate_to_max_witness:
  "coerce plain_env reach_plain (max_schema (LimitNum 2)) ''abc'' no_state (context_prefs JNull)
     = Inr \<lparr>v_value = Some (JStr ''ab''), v_errors = NoErrors\<rparr>
   \<and> coerce plain_env reach_plain (max_schema (LimitRef global_n)) ''abc'' no_state
       (context_prefs (JObj 5 [(''n'', JNum 1)]))
     = Inr \<lparr>v_value = Some (JStr ''a''), v_errors = NoErrors\<rparr>
   \<and> coerce plain_env reach_plain (max_schema (LimitRef global_n)) ''abc'' no_state
       (context_prefs (JObj 6 [(''n'', JStr ''x'')]))
     = Inr \<lparr>v_value = Some (JStr ''abc''), v_errors = ErrOne (limit_ref_error global_n)\<rparr>
   \<and> coerce plain_env reach_plain (max_schema (LimitRef grandparent_x)) ''abc'' no_state
       (context_prefs JNull)
     = Inl (AssertError ''Invalid reference exceeds the schema root'')"
proof -
  have tr: "js_truthy (flag (max_schema l) ''truncate'')" for l
    by (simp add: max_schema_def flag_def js_truthy_def)
  have mx: "getRule (max_schema l) ''max''
              = Some \<lparr>r_name = ''max'', r_method = ''length'', r_args = LengthArgs l None,
                      r_operator = Some OpLe, r_errorCode = None\<rparr>" for l
    by (simp add: max_schema_def getRule_def)
  have bt: "before_truncate plain_env (max_schema l) ''abc'' = Some ''abc''" for l
    by (simp add: before_truncate_def max_schema_def getRule_def coerce_hex_def
        coerce_replace_def coerce_trim_def coerce_case_def coerce_normalize_def terms_of_def)
  have r1: "resolve reach_plain global_n (JStr ''abc'') no_state
              (context_prefs (JObj 5 [(''n'', JNum 1)])) JUndefined \<lparr>shadow_off = False\<rparr>
            = Inr (JNum 1)"
    by (simp add: resolve_def resolve_inner_def global_n_def no_state_def context_prefs_def)
  have r2: "resolve reach_plain global_n (JStr ''abc'') no_state
              (context_prefs (JObj 6 [(''n'', JStr ''x'')])) JUndefined \<lparr>shadow_off = False\<rparr>
            = Inr (JStr ''x'')"
    by (simp add: resolve_def resolve_inner_def global_n_def no_state_def context_prefs_def)
  have l1: "e_limit plain_env 1"
    by (simp add: plain_env_def)
  have nl: "\<not> common_limit plain_env (JStr ''x'')"
    by (simp add: common_limit_def)
  have g: "\<not> exceeds_root global_n st" for st
    by (simp add: exceeds_root_def global_n_def split: option.splits ancestor_val.splits)
  have x: "exceeds_root grandparent_x no_state"
    by (simp add: exceeds_root_def grandparent_x_def no_state_def)
  have s: "js_slice0 ''abc'' 2 = ''ab''" "js_slice0 ''abc'' 1 = ''a''"
    by (simp_all add: js_slice0_def)
  have ar: "r_args \<lparr>r_name = ''max'', r_method = ''length'', r_args = LengthArgs l None,
                     r_operator = Some OpLe, r_errorCode = None\<rparr> = LengthArgs l None" for l
    by simp
  note t = truncate_to_max [OF tr mx ar bt, where reach = reach_plain and st = no_state]
  have 1: "coerce plain_env reach_plain (max_schema (LimitNum 2)) ''abc'' no_state
       (context_prefs JNull) = Inr \<lparr>v_value = Some (JStr ''ab''), v_errors = NoErrors\<rparr>"
    using t [of "LimitNum 2" "context_prefs JNull"] s by simp
  have 2: "coerce plain_env reach_plain (max_schema (LimitRef global_n)) ''abc'' no_state
       (context_prefs (JObj 5 [(''n'', JNum 1)]))
     = Inr \<lparr>v_value = Some (JStr ''a''), v_errors = NoErrors\<rparr>"
    using t [of "LimitRef global_n" "context_prefs (JObj 5 [(''n'', JNum 1)])"] r1 l1 g s
    by simp
  have 3: "coerce plain_env reach_plain (max_schema (LimitRef global_n)) ''abc'' no_state
       (context_prefs (JObj 6 [(''n'', JStr ''x'')]))
     = Inr \<lparr>v_value = Some (JStr ''abc''), v_errors = ErrOne (limit_ref_error global_n)\<rparr>"
    using t [of "LimitRef global_n" "context_prefs (JObj 6 [(''n'', JStr ''x'')])"] r2 nl g
    by simp
  have 4: "coerce plain_env reach_plain (max_schema (LimitRef grandparent_x)) ''abc'' no_state
       (context_prefs JNull)
     = Inl (AssertError ''Invalid reference exceeds the schema root'')"
    using t [of "LimitRef grandparent_x" "context_prefs JNull"] x by simp
  from 1 2 3 4 show ?thesis by simp
qed

text \<open>
  The claim as stated fails in two places. Where an isoDate rule rejects the value: with
  the truncate flag set and the rule \<open>max(2)\<close>, \<open>coerce\<close> on \<open>"abc"\<close> returns the whole value
  with the error \<open>string.isoDate\<close>, not the value cut to \<open>"ab"\<close>. And where the limit is a
  reference beyond the schema root: with the truncate flag set and the rule
  \<open>max(ref('...x'))\<close>, \<open>coerce\<close> on \<open>"abc"\<close> under no ancestors throws; it returns neither a
  cut value nor the error \<open>any.ref\<close>.
\<close>

lemma iso_max_coerce:
  "coerce plain_env reach_plain iso_max_schema ''abc'' st prefs
     = Inr \<lparr>v_value = Some (JStr ''abc''), v_errors = ErrOne (Report ''string.isoDate'' NoContext)\<rparr>"
  by (simp add: coerce_def coerce_normalize_def coerce_case_def coerce_trim_def coerce_replace_def
      coerce_hex_def getRule_def iso_max_schema_def terms_of_def plain_env_def)

lemma beyond_root_coerce:
  "coerce plain_env reach_plain (max_schema (LimitRef grandparent_x)) ''abc'' no_state prefs
     = Inl (AssertError ''Invalid reference exceeds the schema root'')"
  by (simp add: coerce_def coerce_normalize_def coerce_case_def coerce_trim_def coerce_replace_def
      coerce_hex_def getRule_def max_schema_def terms_of_def plain_env_def coerce_truncate_def
      flag_def js_truthy_def resolve_def ancestor_falsy_def grandparent_x_def no_state_def)

theorem truncate_to_max_counterexample:
  "js_truthy (flag iso_max_schema ''truncate'')
   \<and> getRule iso_max_schema ''max''
       = Some \<lparr>r_name = ''max'', r_method = ''length'', r_args = LengthArgs (LimitNum 2) None,
               r_operator = Some OpLe, r_errorCode = None\<rparr>
   \<and> coerce plain_env reach_plain iso_max_schema ''abc''
        \<lparr>ancestors = [], shadow = None\<rparr> \<lparr>prefs_context = JUndefined, prefs_convert = True\<rparr>
       = Inr \<lparr>v_value = Some (JStr ''abc''),
              v_errors = ErrOne (Report ''string.isoDate'' NoContext)\<rparr>
   \<and> js_slice0 ''abc'' 2 = ''ab''
   \<and> js_truthy (flag (max_schema (LimitRef grandparent_x)) ''truncate'')
   \<and> getRule (max_schema (LimitRef grandparent_x)) ''max''
       = Some \<lparr>r_name = ''max'', r_method = ''length'',
               r_args = LengthArgs (LimitRef grandparent_x) None,
               r_operator = Some OpLe, r_errorCode = None\<rparr>
   \<and> getRule (max_schema (LimitRef grandparent_x)) ''isoDate'' = None
   \<and> coerce plain_env reach_plain (max_schema (LimitRef grandparent_x)) ''abc'' no_state
        \<lparr>prefs_context = JUndefined, prefs_convert = True\<rparr>
       = Inl (AssertError ''Invalid reference exceeds the schema root'')"
  by (simp add: iso_max_coerce beyond_root_coerce)
    (simp add: iso_max_schema_def max_schema_def flag_def js_truthy_def getRule_def
      js_slice0_def)

section \<open>The alternatives type: aggregation of the errors\<close>

lemma collect_types_all:
  "collect_types es acc =
     (if list_all (\<lambda>e. base_type e \<noteq> None) es
      then Some (acc @ map (\<lambda>e. case base_type e of Some t \<Rightarrow> t | None \<Rightarrow> []) es) else None)"
proof (induction es arbitrary: acc)
  case Nil
  then show ?case by simp
next
  case (Cons e es)
  show ?case
  proof (cases e)
    case (PlainError m)
    then show ?thesis by (simp add: base_type_def)
  next
    case (Report code ctx)
    then show ?thesis
      using Cons.IH by (auto simp: base_type_def split: list.splits)
  qed
qed

lemma aggregate_eq: "aggregate es = aggregate_tiers es"
  by (simp add: aggregate_def aggregate_tiers_def collect_types_all)

text \<open>
  C8. When the loop over the matches ends without returning a branch's result, with the
  errors \<open>es\<close> it collected, \<open>validate\<close> returns by four tiers: the single error
  \<open>alternatives.base\<close> when there is no error; the one error as it is when there is
  exactly one; \<open>alternatives.types\<close> with the list of the types when every error is the
  \<open>base\<close> error of a type; and otherwise \<open>alternatives.match\<close> with the details of all the
  errors.
\<close>

theorem alternatives_aggregation:
  assumes "terms_of s ''matches'' = Some items"
    and "alternatives_loop vld mtch reach items value state prefs [] = Inr (Collected es)"
  shows "alternatives_validate vld mtch reach s value state prefs = Inr (aggregate_tiers es)"
  using assms by (simp add: alternatives_validate_def aggregate_eq)

lemma try_scenario_value:
  assumes "e_limit env 3" and "\<forall>h a. b_compile B h (ASchema a) = Inr (h, a)"
  shows "try_number_string_min env B = Inr (try_heap, 16)"
  using assms
  by (simp add: try_number_string_min_def new_schema_def alloc_def rules_min_def
      internals_length_def addRule_def args_ok_def clone_def cell_at_def and_then_def
      rule_multi_def min_rule_def try_method_def arg_truthy_def ended_switch_def view_def
      read_term_def read_array_def read_item_def flag_def js_truthy_def as_array_def
      push_term_def term_array_def mutateRebuild_def rebuild_def terms_of_def
      match_has_array_def type_at_def schema_match_def try_heap_def)

lemma try_heap_views:
  "view try_heap 16 = Some \<lparr>s_type = ''alternatives'', s_flags = [], s_rules = [],
      s_terms = [(''matches'', Some [IMatch (schema_match 2), IMatch (schema_match 8)])]\<rparr>"
  "view try_heap 2 = Some \<lparr>s_type = ''number'', s_flags = [], s_rules = [], s_terms = []\<rparr>"
  "view try_heap 8 = Some \<lparr>s_type = ''string'', s_flags = [], s_rules = [min_rule 3],
      s_terms = [(''replacements'', None)]\<rparr>"
  by (simp_all add: view_def cell_at_def try_heap_def read_term_def read_array_def read_item_def)

lemma number_accepts:
  "validate_at env other reach try_heap 2 (JNum n) st prefs
     = Inr \<lparr>v_value = Some (JNum n), v_errors = NoErrors\<rparr>"
  by (simp add: validate_at_def try_heap_views validate_node_def and_then_def base_validate_def
      number_validate_def)

lemma number_rejects:
  "validate_at env other reach try_heap 2 (JStr v) st prefs
     = Inr \<lparr>v_value = Some (JStr v), v_errors = ErrMany [number_base]\<rparr>"
  by (simp add: validate_at_def try_heap_views validate_node_def and_then_def base_validate_def
      number_validate_def number_base_def)

lemma string_min_rejects:
  "validate_at env other reach try_heap 8 (JStr ''ab'') st prefs
     = Inr \<lparr>v_value = Some (JStr ''ab''), v_errors = ErrMany [string_min_ab]\<rparr>"
  using validate_min [of "\<lparr>s_type = ''string'', s_flags = [], s_rules = [min_rule 3],
      s_terms = [(''replacements'', None)]\<rparr>" 3 "''ab''" env other reach st prefs]
  by (simp add: validate_at_def try_heap_views string_min_ab_def)

lemma loop_ab:
  "alternatives_loop (validate_at env other reach try_heap) mtch reach
     [IMatch (schema_match 2), IMatch (schema_match 8)] (JStr ''ab'') st prefs []
   = Inr (Collected [number_base, string_min_ab])"
  by (simp add: schema_match_def number_rejects string_min_rejects and_then_def)

lemma first_branch:
  "alternatives_loop (validate_at env other reach try_heap) mtch reach
     (IMatch (schema_match 2) # rest) (JNum 5) st prefs []
   = Inr (Returned \<lparr>v_value = Some (JNum 5), v_errors = NoErrors\<rparr>)"
  by (simp add: schema_match_def number_accepts and_then_def)

lemma aggregate_ab:
  "aggregate [number_base, string_min_ab]
     = \<lparr>v_value = None,
        v_errors = ErrOne (Report ''alternatives.match'' (Details [number_base, string_min_ab]))\<rparr>"
  by (simp add: aggregate_def number_base_def string_min_ab_def)

theorem alternatives_aggregation_witness:
  "alternatives_loop (validate_at plain_env (\<lambda>r v. None) reach_plain try_heap)
     (\<lambda>a v st p. Inr True) reach_plain
     [IMatch (schema_match 2), IMatch (schema_match 8)] (JStr ''ab'') no_state
     (context_prefs JNull) []
     = Inr (Collected [number_base, string_min_ab])
   \<and> alternatives_validate (validate_at plain_env (\<lambda>r v. None) reach_plain try_heap)
       (\<lambda>a v st p. Inr True) reach_plain
       \<lparr>s_type = ''alternatives'', s_flags = [], s_rules = [],
        s_terms = [(''matches'', Some [IMatch (schema_match 2), IMatch (schema_match 8)])]\<rparr>
       (JStr ''ab'') no_state (context_prefs JNull)
     = Inr \<lparr>v_value = None,
            v_errors = ErrOne (Report ''alternatives.match''
                                 (Details [number_base, string_min_ab]))\<rparr>
   \<and> aggregate_tiers [] = \<lparr>v_value = None,
                            v_errors = ErrOne (Report ''alternatives.base'' NoContext)\<rparr>
   \<and> aggregate_tiers [string_min_ab] = \<lparr>v_value = None, v_errors = ErrMany [string_min_ab]\<rparr>
   \<and> aggregate_tiers [number_base, Report ''string.base'' NoContext]
       = \<lparr>v_value = None,
          v_errors = ErrOne (Report ''alternatives.types''
                               (Local [(''types'', CStrs [''number'', ''string''])]))\<rparr>"
proof -
  let ?s = "\<lparr>s_type = ''alternatives'', s_flags = [], s_rules = [],
             s_terms = [(''matches'', Some [IMatch (schema_match 2), IMatch (schema_match 8)])]\<rparr>"
  have t: "terms_of ?s ''matches'' = Some [IMatch (schema_match 2), IMatch (schema_match 8)]"
    by (simp add: terms_of_def)
  have a: "aggregate_tiers [number_base, string_min_ab]
             = \<lparr>v_value = None,
                v_errors = ErrOne (Report ''alternatives.match''
                                     (Details [number_base, string_min_ab]))\<rparr>"
    by (simp add: aggregate_tiers_def base_type_def number_base_def string_min_ab_def)
  have b: "aggregate_tiers [number_base, Report ''string.base'' NoContext]
       = \<lparr>v_value = None,
          v_errors = ErrOne (Report ''alternatives.types''
                               (Local [(''types'', CStrs [''number'', ''string''])]))\<rparr>"
    by (simp add: aggregate_tiers_def base_type_def number_base_def)
  have c: "aggregate_tiers [] = \<lparr>v_value = None,
                            v_errors = ErrOne (Report ''alternatives.base'' NoContext)\<rparr>"
    "aggregate_tiers [string_min_ab] = \<lparr>v_value = None, v_errors = ErrMany [string_min_ab]\<rparr>"
    by (simp_all add: aggregate_tiers_def)
  have m: "alternatives_validate (validate_at plain_env (\<lambda>r v. None) reach_plain try_heap)
       (\<lambda>a v st p. Inr True) reach_plain ?s (JStr ''ab'') no_state (context_prefs JNull)
     = Inr \<lparr>v_value = None,
            v_errors = ErrOne (Report ''alternatives.match''
                                 (Details [number_base, string_min_ab]))\<rparr>"
    using alternatives_aggregation [OF t loop_ab] a by simp
  show ?thesis
    by (intro conjI; (rule loop_ab m c b))
qed

subsection \<open>The scenario of \<open>try\<close>\<close>

text \<open>
  C4. The schema \<open>try([number, string.min(3)])\<close> validates 5 to the result of its first
  branch, the value 5 with no error, whatever matches follow the first; and it rejects
  \<open>"ab"\<close> with the one error \<open>alternatives.match\<close>, made from the two errors collected:
  \<open>number.base\<close> of the first branch and \<open>string.min\<close> of the second.
\<close>

theorem alternatives_try_scenario:
  assumes "e_limit env 3" and "\<forall>h a. b_compile B h (ASchema a) = Inr (h, a)"
  shows "\<exists>h S s num.
           try_number_string_min env B = Inr (h, S) \<and> view h S = Some s
         \<and> (\<forall>other reach mtch st prefs.
              alternatives_validate (validate_at env other reach h) mtch reach s (JNum 5) st prefs
                = Inr \<lparr>v_value = Some (JNum 5), v_errors = NoErrors\<rparr>
            \<and> alternatives_validate (validate_at env other reach h) mtch reach s (JStr ''ab'')
                  st prefs
                = Inr \<lparr>v_value = None,
                       v_errors = ErrOne (Report ''alternatives.match''
                                            (Details [number_base, string_min_ab]))\<rparr>
            \<and> (\<forall>s' rest.
                  terms_of s' ''matches'' = Some (IMatch (schema_match num) # rest) \<longrightarrow>
                  alternatives_validate (validate_at env other reach h) mtch reach s' (JNum 5)
                    st prefs
                    = Inr \<lparr>v_value = Some (JNum 5), v_errors = NoErrors\<rparr>))"
proof -
  let ?s = "\<lparr>s_type = ''alternatives'', s_flags = [], s_rules = [],
      s_terms = [(''matches'', Some [IMatch (schema_match 2), IMatch (schema_match 8)])]\<rparr>"
  have b: "try_number_string_min env B = Inr (try_heap, 16)"
    using assms by (rule try_scenario_value)
  have t: "terms_of ?s ''matches'' = Some [IMatch (schema_match 2), IMatch (schema_match 8)]"
    by (simp add: terms_of_def)
  have five: "alternatives_validate (validate_at env other reach try_heap) mtch reach ?s (JNum 5)
                st prefs = Inr \<lparr>v_value = Some (JNum 5), v_errors = NoErrors\<rparr>"
    for other reach mtch st prefs
    unfolding alternatives_validate_def t
    by (simp add: first_branch del: alternatives_loop.simps)
  have ab: "alternatives_validate (validate_at env other reach try_heap) mtch reach ?s
              (JStr ''ab'') st prefs
            = Inr \<lparr>v_value = None,
                   v_errors = ErrOne (Report ''alternatives.match''
                                        (Details [number_base, string_min_ab]))\<rparr>"
    for other reach mtch st prefs
    unfolding alternatives_validate_def t
    by (simp add: loop_ab aggregate_ab del: alternatives_loop.simps)
  have any: "alternatives_validate (validate_at env other reach try_heap) mtch reach s' (JNum 5)
               st prefs = Inr \<lparr>v_value = Some (JNum 5), v_errors = NoErrors\<rparr>"
    if "terms_of s' ''matches'' = Some (IMatch (schema_match 2) # rest)"
    for other reach mtch st prefs s' rest
    unfolding alternatives_validate_def that
    by (simp add: first_branch del: alternatives_loop.simps)
  have body: "\<forall>other reach mtch st prefs.
              alternatives_validate (validate_at env other reach try_heap) mtch reach ?s (JNum 5)
                  st prefs
                = Inr \<lparr>v_value = Some (JNum 5), v_errors = NoErrors\<rparr>
            \<and> alternatives_validate (validate_at env other reach try_heap) mtch reach ?s
                  (JStr ''ab'') st prefs
                = Inr \<lparr>v_value = None,
                       v_errors = ErrOne (Report ''alternatives.match''
                                            (Details [number_base, string_min_ab]))\<rparr>
            \<and> (\<forall>s' rest.
                  terms_of s' ''matches'' = Some (IMatch (schema_match 2) # rest) \<longrightarrow>
                  alternatives_validate (validate_at env other reach try_heap) mtch reach s'
                    (JNum 5) st prefs
                    = Inr \<lparr>v_value = Some (JNum 5), v_errors = NoErrors\<rparr>)"
    by (intro allI conjI impI) (rule five, rule ab, erule any)
  show ?thesis
    using b try_heap_views(1) body by blast
qed

theorem alternatives_try_scenario_witness:
  "e_limit plain_env 3
   \<and> try_number_string_min plain_env schema_compile = Inr (try_heap, 16)
   \<and> alternatives_validate (validate_at plain_env (\<lambda>r v. None) reach_plain try_heap)
       (\<lambda>a v st p. Inr True) reach_plain
       \<lparr>s_type = ''alternatives'', s_flags = [], s_rules = [],
        s_terms = [(''matches'', Some [IMatch (schema_match 2), IMatch (schema_match 8)])]\<rparr>
       (JNum 5) no_state (context_prefs JNull)
     = Inr \<lparr>v_value = Some (JNum 5), v_errors = NoErrors\<rparr>
   \<and> alternatives_validate (validate_at plain_env (\<lambda>r v. None) reach_plain try_heap)
       (\<lambda>a v st p. Inr True) reach_plain
       \<lparr>s_type = ''alternatives'', s_flags = [], s_rules = [],
        s_terms = [(''matches'', Some [IMatch (schema_match 2), IMatch (schema_match 8)])]\<rparr>
       (JStr ''ab'') no_state (context_prefs JNull)
     = Inr \<lparr>v_value = None,
            v_errors = ErrOne (Report ''alternatives.match''
                                 (Details [number_base, string_min_ab]))\<rparr>"
proof -
  have l: "e_limit plain_env 3"
    by (simp add: plain_env_def)
  have c: "\<forall>h a. b_compile schema_compile h (ASchema a) = Inr (h, a)"
    by (simp add: schema_compile_def)
  have v: "try_number_string_min plain_env schema_compile = Inr (try_heap, 16)"
    using l c by (rule try_scenario_value)
  from alternatives_try_scenario [OF l c] obtain h S s num
    where b: "try_number_string_min plain_env schema_compile = Inr (h, S)"
      and w: "view h S = Some s"
      and r: "\<forall>other reach mtch st prefs.
              alternatives_validate (validate_at plain_env other reach h) mtch reach s (JNum 5)
                  st prefs
                = Inr \<lparr>v_value = Some (JNum 5), v_errors = NoErrors\<rparr>
            \<and> alternatives_validate (validate_at plain_env other reach h) mtch reach s
                  (JStr ''ab'') st prefs
                = Inr \<lparr>v_value = None,
                       v_errors = ErrOne (Report ''alternatives.match''
                                            (Details [number_base, string_min_ab]))\<rparr>"
    by blast
  from b v have "h = try_heap" "S = 16"
    by simp_all
  with w have "s = \<lparr>s_type = ''alternatives'', s_flags = [], s_rules = [],
        s_terms = [(''matches'', Some [IMatch (schema_match 2), IMatch (schema_match 8)])]\<rparr>"
    by (simp add: try_heap_views)
  with r \<open>h = try_heap\<close> l v show ?thesis
    by simp
qed

section \<open>The frame of a builder call\<close>

text \<open>
  What a builder call leaves alone. \<open>kept n h h'\<close>: the store \<open>h'\<close> has the cells of \<open>h\<close> below
  \<open>n\<close> unchanged. \<open>owned n h obj\<close>: \<open>obj\<close> is a schema object whose node, flags object, terms
  object and term arrays are all at addresses from \<open>n\<close> on, so that an assignment to them
  is to no cell below \<open>n\<close>. \<open>fresh n obj h\<close> is \<open>owned\<close> in a store that reaches \<open>n\<close>.
\<close>

definition kept :: "nat \<Rightarrow> heap \<Rightarrow> heap \<Rightarrow> bool" where
  "kept n h h' = (length h \<le> length h' \<and> take n h' = take n h)"

definition owned :: "nat \<Rightarrow> heap \<Rightarrow> addr \<Rightarrow> bool" where
  "owned n h obj =
     (\<exists>t f tm rs fl ts.
        cell_at h obj = Some (Node t f tm rs) \<and> cell_at h f = Some (Flags fl)
      \<and> cell_at h tm = Some (Terms ts)
      \<and> n \<le> obj \<and> n \<le> f \<and> n \<le> tm \<and> (\<forall>k a. (k, Some a) \<in> set ts \<longrightarrow> n \<le> a))"

definition fresh :: "nat \<Rightarrow> addr \<Rightarrow> heap \<Rightarrow> bool" where
  "fresh n obj h = (n \<le> length h \<and> owned n h obj)"

text \<open>
  The assumption on the parameter \<open>$_compile\<close>: it may allocate, and changes no cell that
  exists. The same for the labelling of a branch, an induction hypothesis below.
\<close>

definition compile_extends :: "base_env \<Rightarrow> bool" where
  "compile_extends B =
     (\<forall>h x h' c. b_compile B h x = Inr (h', c) \<longrightarrow> kept (length h) h h')"

definition lab_ext :: "labeler \<Rightarrow> bool" where
  "lab_ext lab = (\<forall>h a h' a'. lab h a = Some (Inr (h', a')) \<longrightarrow> kept (length h) h h')"

text \<open>
  A store is closed when every address a cell holds is an address of the store: what a
  schema of it describes is then within it.
\<close>

definition opt_below :: "nat \<Rightarrow> addr option \<Rightarrow> bool" where
  "opt_below n ao = (case ao of None \<Rightarrow> True | Some a \<Rightarrow> a < n)"

definition item_below :: "nat \<Rightarrow> item \<Rightarrow> bool" where
  "item_below n it =
     (case it of
        IReplacement p f r \<Rightarrow> True
      | IMatch m \<Rightarrow>
          list_all (opt_below n) [m_schema m, m_peek m, m_is m, m_then m, m_otherwise m])"

definition cell_below :: "nat \<Rightarrow> cell \<Rightarrow> bool" where
  "cell_below n c =
     (case c of
        Node t f tm rs \<Rightarrow> f < n \<and> tm < n
      | Flags fl \<Rightarrow> True
      | Terms ts \<Rightarrow> list_all (\<lambda>(k, ao). opt_below n ao) ts
      | Array xs \<Rightarrow> list_all (\<lambda>a. a < n) xs
      | Item it \<Rightarrow> item_below n it)"

definition closed :: "heap \<Rightarrow> bool" where
  "closed h = list_all (cell_below (length h)) h"

text \<open>The store after \<open>try\<close> is called once more on the schema of the \<open>try\<close> scenario, with
  the number schema.\<close>

definition try_again_heap :: heap where
  "try_again_heap =
     try_heap @
     [Flags [], Array [17, 18, 23], Terms [(''matches'', Some 20)],
      Node ''alternatives'' 19 21 [], Item (IMatch (schema_match 2))]"

text \<open>
  The schemas \<open>label\<close> descends to from an alternatives schema: the \<open>schema\<close> of a match, or
  its \<open>then\<close> and its \<open>otherwise\<close>. \<open>nested n h a\<close>: below the schema at \<open>a\<close>, alternatives are
  nested fewer than \<open>n\<close> deep, which is the depth \<open>label\<close> needs.
\<close>

definition item_children :: "item \<Rightarrow> addr list" where
  "item_children it =
     (case it of
        IReplacement p f r \<Rightarrow> []
      | IMatch m \<Rightarrow>
          (case m_schema m of
             Some c \<Rightarrow> [c]
           | None \<Rightarrow>
               (case m_then m of Some c \<Rightarrow> [c] | None \<Rightarrow> [])
               @ (case m_otherwise m of Some c \<Rightarrow> [c] | None \<Rightarrow> [])))"

definition branches :: "heap \<Rightarrow> addr \<Rightarrow> addr list" where
  "branches h a =
     (case matches_of h a of Inr items \<Rightarrow> concat (map item_children items) | Inl e \<Rightarrow> [])"

fun nested :: "nat \<Rightarrow> heap \<Rightarrow> addr \<Rightarrow> bool" where
  "nested 0 h a = False"
| "nested (Suc n) h a =
     (if type_at h a = Some ''alternatives'' then list_all (nested n h) (branches h a)
      else True)"

text \<open>
  For the proofs: an entry of \<open>$_terms\<close> and its copy in a clone hold arrays of the same
  entries; a labelling that returns on given schemas in every extension of a store; a
  labelling that returns whatever another returns.
\<close>

definition copied :: "heap \<Rightarrow> nat \<Rightarrow> string \<times> addr option \<Rightarrow> string \<times> addr option \<Rightarrow> bool" where
  "copied h n e' e =
     (fst e' = fst e
      \<and> (case snd e of
           None \<Rightarrow> snd e' = None
         | Some a \<Rightarrow>
             (\<exists>a' xs. snd e' = Some a' \<and> n \<le> a' \<and> a' < length h
                \<and> cell_at h a' = Some (Array xs) \<and> cell_at h a = Some (Array xs))))"

definition returns_on :: "labeler \<Rightarrow> heap \<Rightarrow> addr list \<Rightarrow> bool" where
  "returns_on lab h cs = (\<forall>ys. \<forall>c \<in> set cs. \<exists>r. lab (h @ ys) c = Some r)"

definition lab_le :: "labeler \<Rightarrow> labeler \<Rightarrow> bool" where
  "lab_le lab lab' = (\<forall>h c r. lab h c = Some r \<longrightarrow> lab' h c = Some r)"

text \<open>The store after \<open>label('x')\<close> on the schema of the \<open>try\<close> scenario.\<close>

definition label_heap :: heap where
  "label_heap =
     try_heap @
     [Flags [(''label'', JStr ''x'')], Array [17, 18], Terms [(''matches'', Some 31)],
      Node ''alternatives'' 19 21 [],
      Flags [(''label'', JStr ''x'')], Terms [], Node ''number'' 23 24 [],
      Flags [(''label'', JStr ''x'')], Terms [(''replacements'', None)],
      Node ''string'' 26 27 [min_rule 3],
      Item (IMatch (schema_match 25)), Item (IMatch (schema_match 28)), Array [29, 30]]"


subsection \<open>Stores that keep their cells\<close>

lemma kept_refl: "kept n h h"
  by (simp add: kept_def)

lemma kept_trans: "kept n h h1 \<Longrightarrow> kept n h1 h2 \<Longrightarrow> kept n h h2"
  by (simp add: kept_def)

lemma kept_append: "n \<le> length h \<Longrightarrow> kept n h (h @ ys)"
  by (simp add: kept_def)

lemma kept_update: "n \<le> a \<Longrightarrow> kept n h (h[a := c])"
  by (simp add: kept_def)

lemma kept_length: "kept n h h' \<Longrightarrow> n \<le> length h \<Longrightarrow> n \<le> length h'"
  by (simp add: kept_def)

lemma kept_prefix: "kept (length h) h h' \<Longrightarrow> \<exists>ys. h' = h @ ys"
  by (metis kept_def append_take_drop_id take_all order_refl)

lemma cell_at_append: "cell_at h a = Some c \<Longrightarrow> cell_at (h @ ys) a = Some c"
  by (auto simp: cell_at_def nth_append split: if_splits)

lemma cell_at_update:
  "cell_at (h[a := c]) b = (if b = a \<and> a < length h then Some c else cell_at h b)"
  by (auto simp: cell_at_def)

lemma owned_append: "owned n h obj \<Longrightarrow> owned n (h @ ys) obj"
  unfolding owned_def by (blast intro: cell_at_append)

lemma alloc_kept: "alloc h c = (h', a) \<Longrightarrow> h' = h @ [c] \<and> a = length h"
  by (auto simp: alloc_def)

lemma set_assoc_set: "set (assoc_set kvs k v) \<subseteq> insert (k, v) (set kvs)"
  by (induction kvs) (auto split: if_splits)

lemma map_of_assoc_set: "map_of (assoc_set kvs k v) k' = (if k' = k then Some v else map_of kvs k')"
  by (induction kvs) auto

subsection \<open>Assignments to an object of its own\<close>

lemma setFlag_here_owned:
  assumes "setFlag_here h obj name v = Inr h'" and "owned n h obj"
  shows "kept n h h' \<and> owned n h' obj"
proof -
  from assms(2) obtain t f tm rs fl ts where
    c: "cell_at h obj = Some (Node t f tm rs)" "cell_at h f = Some (Flags fl)"
       "cell_at h tm = Some (Terms ts)"
    and n: "n \<le> obj" "n \<le> f" "n \<le> tm" "\<forall>k a. (k, Some a) \<in> set ts \<longrightarrow> n \<le> a"
    unfolding owned_def by blast
  from assms(1) c have h': "h' = h[f := Flags (assoc_set fl name v)]"
    by (simp add: setFlag_here_def)
  from c have ne: "f \<noteq> obj" "f \<noteq> tm" "f < length h"
    by (auto simp: cell_at_def split: if_splits)
  have "owned n h' obj"
    unfolding owned_def h' using c n ne
    by (intro exI [of _ t] exI [of _ f] exI [of _ tm] exI [of _ rs]
        exI [of _ "assoc_set fl name v"] exI [of _ ts]) (simp add: cell_at_update)
  then show ?thesis
    using n by (simp add: h' kept_update)
qed

lemma set_term_owned:
  assumes "set_term h obj name arr = Inr h'" and "owned n h obj" and "n \<le> arr"
  shows "kept n h h' \<and> owned n h' obj"
proof -
  from assms(2) obtain t f tm rs fl ts where
    c: "cell_at h obj = Some (Node t f tm rs)" "cell_at h f = Some (Flags fl)"
       "cell_at h tm = Some (Terms ts)"
    and n: "n \<le> obj" "n \<le> f" "n \<le> tm" "\<forall>k a. (k, Some a) \<in> set ts \<longrightarrow> n \<le> a"
    unfolding owned_def by blast
  from assms(1) c have h': "h' = h[tm := Terms (assoc_set ts name (Some arr))]"
    by (simp add: set_term_def)
  from c have ne: "tm \<noteq> obj" "f \<noteq> tm" "tm < length h"
    by (auto simp: cell_at_def split: if_splits)
  have "\<forall>k a. (k, Some a) \<in> set (assoc_set ts name (Some arr)) \<longrightarrow> n \<le> a"
    using set_assoc_set [of ts name "Some arr"] n(4) assms(3) by auto
  then have "owned n h' obj"
    unfolding owned_def h' using c n ne
    by (intro exI [of _ t] exI [of _ f] exI [of _ tm] exI [of _ rs]
        exI [of _ fl] exI [of _ "assoc_set ts name (Some arr)"]) (simp add: cell_at_update)
  then show ?thesis
    using n by (simp add: h' kept_update)
qed

lemma push_term_owned:
  assumes "push_term h obj name it = Inr h'" and "owned n h obj" and "n \<le> length h"
  shows "kept n h h' \<and> owned n h' obj"
proof -
  from assms(2) obtain t f tm rs fl ts where
    c: "cell_at h obj = Some (Node t f tm rs)" "cell_at h f = Some (Flags fl)"
       "cell_at h tm = Some (Terms ts)"
    and n: "n \<le> obj" "n \<le> f" "n \<le> tm" "\<forall>k a. (k, Some a) \<in> set ts \<longrightarrow> n \<le> a"
    unfolding owned_def by blast
  from assms(1) c obtain arr xs where
    a: "map_of ts name = Some (Some arr)" "cell_at h arr = Some (Array xs)"
    and h': "h' = (h @ [Item it])[arr := Array (xs @ [length h])]"
    by (auto simp: push_term_def term_array_def and_then_def alloc_def
        split: option.splits cell.splits)
  from a(1) have "(name, Some arr) \<in> set ts"
    by (rule map_of_SomeD)
  with n have na: "n \<le> arr" by blast
  from c a have ne: "arr \<noteq> obj" "arr \<noteq> tm" "arr \<noteq> f" "arr < length h"
    by (auto simp: cell_at_def split: if_splits)
  have c': "cell_at (h @ [Item it]) obj = Some (Node t f tm rs)"
    "cell_at (h @ [Item it]) f = Some (Flags fl)" "cell_at (h @ [Item it]) tm = Some (Terms ts)"
    using c by (simp_all add: cell_at_append)
  have "owned n h' obj"
    unfolding owned_def h' using c' n ne
    by (intro exI [of _ t] exI [of _ f] exI [of _ tm] exI [of _ rs]
        exI [of _ fl] exI [of _ ts]) (simp add: cell_at_update)
  moreover have "kept n h h'"
    unfolding h' using na assms(3) by (simp add: kept_def)
  ultimately show ?thesis by simp
qed

subsection \<open>Steps that only extend the store\<close>

lemma and_then_Inr:
  assumes "and_then m f = Inr y"
  obtains x where "m = Inr x" and "f x = Inr y"
  using assms by (cases m) (simp_all add: and_then_def)

lemma ext_cell: "kept (length h) h h' \<Longrightarrow> cell_at h a = Some c \<Longrightarrow> cell_at h' a = Some c"
  by (metis kept_prefix cell_at_append)

lemma ext_kept: "kept (length h) h h' \<Longrightarrow> n \<le> length h \<Longrightarrow> kept n h h'"
  by (metis kept_prefix kept_append)

lemma ext_owned: "kept (length h) h h' \<Longrightarrow> owned n h obj \<Longrightarrow> owned n h' obj"
  by (metis kept_prefix owned_append)

lemma ext_trans:
  "kept (length h) h h1 \<Longrightarrow> kept (length h1) h1 h2 \<Longrightarrow> kept (length h) h h2"
  by (metis kept_prefix kept_append append_assoc order_refl)

lemma ext_append: "kept (length h) h (h @ ys)"
  by (simp add: kept_append)

lemma slice_terms_ext:
  "slice_terms h ts = Inr (h', ts') \<Longrightarrow>
   kept (length h) h h' \<and> (\<forall>k a. (k, Some a) \<in> set ts' \<longrightarrow> length h \<le> a \<and> a < length h')"
proof (induction h ts arbitrary: h' ts' rule: slice_terms.induct)
  case (1 h)
  then show ?case by (simp add: kept_refl)
next
  case (2 h k ts)
  then show ?case
    by (auto simp: and_then_def split: sum.splits)
next
  case (3 h k a ts)
  from "3.prems" obtain xs h2 ts2 where
    x: "cell_at h a = Some (Array xs)"
    and s: "slice_terms (h @ [Array xs]) ts = Inr (h2, ts2)"
    and r: "h' = h2" "ts' = (k, Some (length h)) # ts2"
    by (auto simp: and_then_def alloc_def split: option.splits cell.splits sum.splits)
  have al: "(h @ [Array xs], length h) = alloc h (Array xs)"
    by (simp add: alloc_def)
  from "3.IH" [OF x refl al s] have
    ih: "kept (length (h @ [Array xs])) (h @ [Array xs]) h2"
        "\<forall>k a. (k, Some a) \<in> set ts2 \<longrightarrow> length (h @ [Array xs]) \<le> a \<and> a < length h2"
    by simp_all
  have "kept (length h) h h2"
    using ext_trans [OF ext_append ih(1)] .
  moreover have "length h < length h2"
    using ih(1) by (simp add: kept_def)
  moreover have "\<forall>k a. (k, Some a) \<in> set ts2 \<longrightarrow> length h \<le> a \<and> a < length h2"
    using ih(2) by (auto dest: Suc_leD)
  ultimately show ?case
    using r by auto
qed

lemma clone_ext:
  assumes "clone h this = Inr (h', obj)"
  shows "kept (length h) h h' \<and> owned (length h) h' obj"
proof -
  from assms obtain t f tm rs fl ts h2 ts' where
    c: "cell_at h this = Some (Node t f tm rs)" "cell_at h f = Some (Flags fl)"
       "cell_at h tm = Some (Terms ts)"
    and s: "slice_terms (h @ [Flags fl]) ts = Inr (h2, ts')"
    and r: "h' = h2 @ [Terms ts'] @ [Node t (length h) (length h2) rs]" "obj = Suc (length h2)"
    by (auto simp: clone_def and_then_def alloc_def split: option.splits cell.splits sum.splits)
  from slice_terms_ext [OF s] have
    k: "kept (length (h @ [Flags fl])) (h @ [Flags fl]) h2"
    and a: "\<forall>k a. (k, Some a) \<in> set ts' \<longrightarrow> length (h @ [Flags fl]) \<le> a \<and> a < length h2"
    by simp_all
  have k2: "kept (length h) h h2"
    using ext_trans [OF ext_append k] .
  have f: "cell_at h2 (length h) = Some (Flags fl)"
    using ext_cell [OF k, of "length h" "Flags fl"] by (simp add: cell_at_def)
  have l: "length h < length h2"
    using k by (simp add: kept_def)
  have c1: "cell_at h' obj = Some (Node t (length h) (length h2) rs)"
    unfolding r by (simp add: cell_at_def nth_append)
  have c2: "cell_at h' (length h) = Some (Flags fl)"
    unfolding r using f l by (simp add: cell_at_def nth_append)
  have c3: "cell_at h' (length h2) = Some (Terms ts')"
    unfolding r by (simp add: cell_at_def nth_append)
  have c4: "\<forall>k a. (k, Some a) \<in> set ts' \<longrightarrow> length h \<le> a"
    using a by (auto dest: Suc_leD)
  have "owned (length h) h' obj"
    unfolding owned_def using c1 c2 c3 c4 l r(2)
    by (intro exI [of _ t] exI [of _ "length h"] exI [of _ "length h2"] exI [of _ rs]
        exI [of _ fl] exI [of _ ts']) simp
  moreover have "kept (length h) h h'"
    unfolding r using ext_trans [OF k2 ext_append] .
  ultimately show ?thesis by simp
qed

lemma owned_bound: "owned n h obj \<Longrightarrow> n \<le> obj \<and> obj < length h"
  by (auto simp: owned_def cell_at_def split: if_splits)

lemma setFlag_ext:
  assumes "setFlag h this name v = Inr (h', obj)"
  shows "kept (length h) h h' \<and> owned (length h) h' obj"
proof -
  from assms obtain h1 where c: "clone h this = Inr (h1, obj)"
    and f: "setFlag_here h1 obj name v = Inr h'"
    by (auto simp: setFlag_def and_then_def split: sum.splits)
  from clone_ext [OF c] have k: "kept (length h) h h1" and o: "owned (length h) h1 obj"
    by simp_all
  from setFlag_here_owned [OF f o] show ?thesis
    using k kept_trans by blast
qed

lemma rebuild_owned:
  assumes "rebuild h obj = Inr h'" and "owned n h obj"
  shows "kept n h h' \<and> owned n h' obj"
  using assms setFlag_here_owned [of h obj "''_arrayItems''" "JBool True" h' n]
  by (auto simp: rebuild_def kept_refl split: option.splits if_splits)

lemma try_loop_owned:
  assumes "compile_extends B"
  shows "try_loop B h obj xs = Inr h' \<Longrightarrow> owned n h obj \<Longrightarrow> n \<le> length h
         \<Longrightarrow> kept n h h' \<and> owned n h' obj"
proof (induction xs arbitrary: h)
  case Nil
  then show ?case by (simp add: kept_refl)
next
  case (Cons x xs)
  from Cons.prems(1) obtain h1 c h2 where
    c: "b_compile B h x = Inr (h1, c)"
    and p: "push_term h1 obj ''matches'' (IMatch (schema_match c)) = Inr h2"
    and l: "try_loop B h2 obj xs = Inr h'"
    by (auto simp: and_then_def split: sum.splits)
  from assms c have e: "kept (length h) h h1"
    by (auto simp: compile_extends_def)
  have k1: "kept n h h1" and o1: "owned n h1 obj"
    using ext_kept [OF e Cons.prems(3)] ext_owned [OF e Cons.prems(2)] by simp_all
  have n1: "n \<le> length h1"
    using k1 Cons.prems(3) by (rule kept_length)
  from push_term_owned [OF p o1 n1] have k2: "kept n h1 h2" and o2: "owned n h2 obj"
    by simp_all
  have n2: "n \<le> length h2"
    using k2 n1 by (rule kept_length)
  from Cons.IH [OF l o2 n2] show ?case
    using k1 k2 kept_trans by blast
qed

subsection \<open>The clone through the steps of a method\<close>

lemma fresh_ext:
  assumes "kept (length h) h h'" and "fresh n obj h"
  shows "fresh n obj h' \<and> kept n h h'"
  using assms ext_kept [of h h' n] ext_owned [of h h' n obj] kept_length [of n h h']
  by (auto simp: fresh_def)

lemma fresh_push:
  assumes "push_term h obj name it = Inr h'" and "fresh n obj h"
  shows "fresh n obj h' \<and> kept n h h'"
  using assms push_term_owned [of h obj name it h' n] kept_length [of n h h']
  by (auto simp: fresh_def)

lemma fresh_setFlag_here:
  assumes "setFlag_here h obj name v = Inr h'" and "fresh n obj h"
  shows "fresh n obj h' \<and> kept n h h'"
  using assms setFlag_here_owned [of h obj name v h' n] kept_length [of n h h']
  by (auto simp: fresh_def)

lemma fresh_set_term:
  assumes "set_term h obj name arr = Inr h'" and "fresh n obj h" and "n \<le> arr"
  shows "fresh n obj h' \<and> kept n h h'"
  using assms set_term_owned [of h obj name arr h' n] kept_length [of n h h']
  by (auto simp: fresh_def)

lemma fresh_rebuild:
  assumes "rebuild h obj = Inr h'" and "fresh n obj h"
  shows "fresh n obj h' \<and> kept n h h'"
  using assms rebuild_owned [of h obj h' n] kept_length [of n h h']
  by (auto simp: fresh_def)

lemma fresh_clone:
  assumes "clone h this = Inr (h', obj)"
  shows "fresh (length h) obj h' \<and> kept (length h) h h'"
  using clone_ext [OF assms] by (auto simp: fresh_def kept_def)

lemma fresh_setFlag:
  assumes "setFlag h this name v = Inr (h', obj)"
  shows "fresh (length h) obj h' \<and> kept (length h) h h'"
  using setFlag_ext [OF assms] by (auto simp: fresh_def kept_def)

lemma fresh_new: "fresh n obj h \<Longrightarrow> n \<le> obj"
  by (auto simp: fresh_def dest: owned_bound)

lemma and_then_pair:
  assumes "and_then m (\<lambda>(a, b). f a b) = Inr y"
  obtains a b where "m = Inr (a, b)" and "f a b = Inr y"
  using assms by (cases m) (auto simp: and_then_def)

lemma compile_opt_ext:
  assumes "compile_extends B" and "compile_opt B h x = Inr (h', c)"
  shows "kept (length h) h h'"
  using assms
  by (auto simp: compile_opt_def compile_extends_def kept_refl and_then_def
      split: if_splits sum.splits)

lemma required_ext: "required h c = Inr (h', c') \<Longrightarrow> kept (length h) h h'"
  unfolding required_def by (drule setFlag_ext) simp

lemma compile_is_ext:
  assumes "compile_extends B" and "compile_is B h x = Inr (h', c)"
  shows "kept (length h) h h'"
proof (cases "is_undefined x")
  case True
  with assms(2) show ?thesis by (simp add: compile_is_def kept_refl)
next
  case False
  with assms(2) obtain h1 c1 where b: "b_compile B h x = Inr (h1, c1)"
    and r: "(if x = AVal JNull \<or> \<not> (is_ref x \<or> is_schema x) then
               and_then (required h1 c1) (\<lambda>(h2, c'). Inr (h2, Some c'))
             else Inr (h1, Some c1)) = Inr (h', c)"
    by (auto simp: compile_is_def and_then_def split: sum.splits)
  from assms(1) b have k: "kept (length h) h h1"
    by (auto simp: compile_extends_def)
  from r have "kept (length h1) h1 h'"
    by (auto simp: and_then_def kept_refl split: if_splits sum.splits dest: required_ext)
  with k show ?thesis by (rule ext_trans)
qed

lemma end_switch_fresh:
  assumes "end_switch h obj th ow = Inr h'" and "fresh n obj h"
  shows "fresh n obj h' \<and> kept n h h'"
  using assms fresh_setFlag_here [of h obj "''_endedSwitch''" "JBool True" h' n]
  by (auto simp: end_switch_def kept_refl split: if_splits)

lemma normalize_fresh:
  assumes B: "compile_extends B" and nz: "normalize B h obj m settings = Inr (h', it)"
    and i: "fresh n obj h"
  shows "fresh n obj h' \<and> kept n h h'"
proof -
  from nz obtain s_then s_otherwise s_is h1 th h2 ow h3 "is" where
    c1: "compile_opt B h s_then = Inr (h1, th)"
    and c2: "compile_opt B h1 s_otherwise = Inr (h2, ow)"
    and c3: "compile_is B h2 s_is = Inr (h3, is)"
    and e: "end_switch h3 obj th ow = Inr h'"
    unfolding normalize_def by - ((erule and_then_pair | erule and_then_Inr)+, auto)
  from fresh_ext [OF compile_opt_ext [OF B c1] i] have i1: "fresh n obj h1" and k1: "kept n h h1"
    by simp_all
  from fresh_ext [OF compile_opt_ext [OF B c2] i1] have i2: "fresh n obj h2" and k2: "kept n h1 h2"
    by simp_all
  from fresh_ext [OF compile_is_ext [OF B c3] i2] have i3: "fresh n obj h3" and k3: "kept n h2 h3"
    by simp_all
  from end_switch_fresh [OF e i3] show ?thesis
    using k1 k2 k3 kept_trans by blast
qed

lemma and_then_Inr_iff: "(and_then m f = Inr y) = (\<exists>x. m = Inr x \<and> f x = Inr y)"
  by (cases m) (simp_all add: and_then_def)

lemma when_switch_fresh:
  assumes B: "compile_extends B"
  shows "when_switch B h obj c tests ow = Inr h' \<Longrightarrow> fresh n obj h
         \<Longrightarrow> fresh n obj h' \<and> kept n h h'"
proof (induction tests arbitrary: h)
  case Nil
  then show ?case by (simp add: kept_refl)
next
  case (Cons test tests)
  show ?case
  proof (cases "tests = []")
    case True
    with Cons.prems(1) obtain settings h1 it where
      nz: "normalize B h obj c settings = Inr (h1, it)"
      and p: "push_term h1 obj ''matches'' (IMatch it) = Inr h'"
      by (auto simp: and_then_Inr_iff split: if_splits)
    from normalize_fresh [OF B nz Cons.prems(2)] have i1: "fresh n obj h1" and k1: "kept n h h1"
      by simp_all
    from fresh_push [OF p i1] k1 show ?thesis by (blast intro: kept_trans)
  next
    case False
    with Cons.prems(1) obtain h1 it h2 where
      nz: "normalize B h obj c test = Inr (h1, it)"
      and p: "push_term h1 obj ''matches'' (IMatch it) = Inr h2"
      and r: "when_switch B h2 obj c tests ow = Inr h'"
      by (auto simp: and_then_Inr_iff split: if_splits)
    from normalize_fresh [OF B nz Cons.prems(2)] have i1: "fresh n obj h1" and k1: "kept n h h1"
      by simp_all
    from fresh_push [OF p i1] have i2: "fresh n obj h2" and k2: "kept n h1 h2" by simp_all
    from Cons.IH [OF r i2] k1 k2 show ?thesis by (blast intro: kept_trans)
  qed
qed

lemma mutateRebuild_fresh:
  assumes "mutateRebuild h obj = Inr (h', S)" and "fresh n obj h"
  shows "fresh n obj h' \<and> kept n h h' \<and> S = obj"
  using assms fresh_rebuild [of h obj h' n]
  by (auto simp: mutateRebuild_def and_then_Inr_iff)

lemma when_fresh:
  assumes B: "compile_extends B" and w: "when_method B h this c opts = Inr (h', S)"
  shows "fresh (length h) S h' \<and> kept (length h) h h'"
proof -
  from w obtain h1 obj where c: "clone h this = Inr (h1, obj)"
    and r: "(\<exists>settings h2 it h3. normalize B h1 obj c settings = Inr (h2, it)
              \<and> push_term h2 obj ''matches'' (IMatch it) = Inr h3
              \<and> mutateRebuild h3 obj = Inr (h', S))
          \<or> (\<exists>tests ow h2. when_switch B h1 obj c tests ow = Inr h2
              \<and> mutateRebuild h2 obj = Inr (h', S))"
    unfolding when_method_def Let_def
    by (simp add: and_then_Inr_iff split: if_splits) blast
  from fresh_clone [OF c] have i1: "fresh (length h) obj h1" and k1: "kept (length h) h h1"
    by simp_all
  from r show ?thesis
  proof
    assume "\<exists>settings h2 it h3. normalize B h1 obj c settings = Inr (h2, it)
              \<and> push_term h2 obj ''matches'' (IMatch it) = Inr h3
              \<and> mutateRebuild h3 obj = Inr (h', S)"
    then obtain settings h2 it h3 where nz: "normalize B h1 obj c settings = Inr (h2, it)"
      and p: "push_term h2 obj ''matches'' (IMatch it) = Inr h3"
      and m: "mutateRebuild h3 obj = Inr (h', S)" by blast
    from normalize_fresh [OF B nz i1] have i2: "fresh (length h) obj h2"
      and k2: "kept (length h) h1 h2" by simp_all
    from fresh_push [OF p i2] have i3: "fresh (length h) obj h3"
      and k3: "kept (length h) h2 h3" by simp_all
    from mutateRebuild_fresh [OF m i3] k1 k2 k3 show ?thesis by (blast intro: kept_trans)
  next
    assume "\<exists>tests ow h2. when_switch B h1 obj c tests ow = Inr h2
              \<and> mutateRebuild h2 obj = Inr (h', S)"
    then obtain tests ow h2 where ws: "when_switch B h1 obj c tests ow = Inr h2"
      and m: "mutateRebuild h2 obj = Inr (h', S)" by blast
    from when_switch_fresh [OF B ws i1] have i2: "fresh (length h) obj h2"
      and k2: "kept (length h) h1 h2" by simp_all
    from mutateRebuild_fresh [OF m i2] k1 k2 show ?thesis by (blast intro: kept_trans)
  qed
qed

subsection \<open>Labelling\<close>

lemma and_then_opt_iff:
  "(and_then_opt m f = Some (Inr y)) = (\<exists>x. m = Some (Inr x) \<and> f x = Some (Inr y))"
  by (auto simp: and_then_opt_def split: option.splits sum.splits)

lemma label_opt_ext:
  assumes "lab_ext lab" and "label_opt lab h ao = Some (Inr (h', ao'))"
  shows "kept (length h) h h'"
  using assms
  by (auto simp: label_opt_def lab_ext_def and_then_opt_iff kept_refl split: option.splits)

lemma label_match_ext:
  assumes L: "lab_ext lab" and m: "label_match lab h it = Some (Inr (h', it'))"
  shows "kept (length h) h h'"
proof (cases it)
  case (IReplacement p f r)
  with m show ?thesis by (simp add: label_match_def kept_refl)
next
  case (IMatch x)
  show ?thesis
  proof (cases "m_schema x")
    case (Some c)
    with m IMatch L show ?thesis
      by (auto simp: label_match_def and_then_opt_iff lab_ext_def)
  next
    case None
    with m IMatch obtain h1 th ow where
      a: "label_opt lab h (m_then x) = Some (Inr (h1, th))"
      and b: "label_opt lab h1 (m_otherwise x) = Some (Inr (h', ow))"
      by (auto simp: label_match_def and_then_opt_iff)
    from label_opt_ext [OF L a] label_opt_ext [OF L b] show ?thesis by (rule ext_trans)
  qed
qed

lemma label_items_ext:
  assumes L: "lab_ext lab"
  shows "label_items lab h items = Some (Inr (h', items')) \<Longrightarrow> kept (length h) h h'"
proof (induction items arbitrary: h items')
  case Nil
  then show ?case by (simp add: kept_refl)
next
  case (Cons it items)
  from Cons.prems obtain h1 it' its where
    a: "label_match lab h it = Some (Inr (h1, it'))"
    and b: "label_items lab h1 items = Some (Inr (h', its))"
    by (auto simp: and_then_opt_iff)
  from label_match_ext [OF L a] Cons.IH [OF b] show ?case by (rule ext_trans)
qed

lemma alloc_items_ext: "alloc_items h items = (h', as) \<Longrightarrow> kept (length h) h h'"
proof (induction items arbitrary: h as)
  case Nil
  then show ?case by (simp add: kept_refl)
next
  case (Cons it items)
  from Cons.prems obtain as' where b: "alloc_items (h @ [Item it]) items = (h', as')"
    by (auto simp: alloc_def split: prod.splits)
  from ext_append [of h "[Item it]"] Cons.IH [OF b] show ?case by (rule ext_trans)
qed

lemma base_label_fresh:
  assumes "base_label h this name = Inr (h', obj)"
  shows "fresh (length h) obj h' \<and> kept (length h) h h'"
  using assms fresh_setFlag [of h this "''label''" "JStr name" h' obj]
  by (simp add: base_label_def split: if_splits)

lemma overrides_label_fresh:
  assumes L: "lab_ext (\<lambda>h c. lab h c name)"
    and o: "overrides_label lab h this name = Some (Inr (h', S))"
  shows "fresh (length h) S h' \<and> kept (length h) h h'"
proof -
  from o obtain h1 obj items h2 items' where
    b0: "base_label h this name = Inr (h1, obj)"
    and l: "label_items (\<lambda>h c. lab h c name) h1 items = Some (Inr (h2, items'))"
    and r: "(case alloc_items h2 items' of
               (h3, as) \<Rightarrow>
                 Some (and_then (set_term (h3 @ [Array as]) obj ''matches'' (length h3))
                         (\<lambda>h5. Inr (h5, obj)))) = Some (Inr (h', S))"
    unfolding overrides_label_def
    by (auto simp: and_then_opt_iff alloc_def)
  obtain h3 as where a: "alloc_items h2 items' = (h3, as)" by (cases "alloc_items h2 items'")
  with r have s: "set_term (h3 @ [Array as]) S ''matches'' (length h3) = Inr h'"
    and e: "obj = S"
    by (auto simp: and_then_Inr_iff)
  from b0 e have b: "base_label h this name = Inr (h1, S)" by simp
  from base_label_fresh [OF b] have i1: "fresh (length h) S h1" and k1: "kept (length h) h h1"
    by simp_all
  from fresh_ext [OF label_items_ext [OF L l] i1] have i2: "fresh (length h) S h2"
    and k2: "kept (length h) h1 h2" by simp_all
  from fresh_ext [OF alloc_items_ext [OF a] i2] have i3: "fresh (length h) S h3"
    and k3: "kept (length h) h2 h3" by simp_all
  from fresh_ext [OF ext_append i3] have i4: "fresh (length h) S (h3 @ [Array as])"
    and k4: "kept (length h) h3 (h3 @ [Array as])" by simp_all
  from i3 have "length h \<le> length h3" by (simp add: fresh_def)
  from fresh_set_term [OF s i4 this] k1 k2 k3 k4 show ?thesis by (blast intro: kept_trans)
qed

lemma label_fresh:
  "label n h this name = Some (Inr (h', S)) \<Longrightarrow> fresh (length h) S h' \<and> kept (length h) h h'"
proof (induction n arbitrary: h this h' S)
  case 0
  then show ?case by simp
next
  case (Suc n)
  show ?case
  proof (cases "type_at h this = Some ''alternatives''")
    case True
    from Suc.IH have "lab_ext (\<lambda>h c. label n h c name)"
      unfolding lab_ext_def by blast
    moreover from Suc.prems True have "overrides_label (label n) h this name = Some (Inr (h', S))"
      by simp
    ultimately show ?thesis by (rule overrides_label_fresh)
  next
    case False
    with Suc.prems have "base_label h this name = Inr (h', S)" by simp
    from base_label_fresh [OF this] show ?thesis .
  qed
qed

subsection \<open>Descriptions in an extended store\<close>

lemma closed_cell: "closed h \<Longrightarrow> cell_at h a = Some c \<Longrightarrow> cell_below (length h) c"
  by (auto simp: closed_def cell_at_def list_all_length split: if_splits)

lemma cell_at_ext: "a < length h \<Longrightarrow> cell_at (h @ ys) a = cell_at h a"
  by (simp add: cell_at_def nth_append)

lemma read_item_ext: "a < length h \<Longrightarrow> read_item (h @ ys) a = read_item h a"
  by (simp add: read_item_def cell_at_ext)

lemma read_array_ext:
  assumes "closed h" and "a < length h"
  shows "read_array (h @ ys) a = read_array h a"
proof (cases "cell_at h a")
  case None
  with assms(2) show ?thesis by (simp add: cell_at_def)
next
  case (Some c)
  show ?thesis
  proof (cases c)
    case (Array xs)
    with closed_cell [OF assms(1) Some] have "\<forall>x\<in>set xs. x < length h"
      by (simp add: cell_below_def list_all_iff)
    then have eq: "map (read_item (h @ ys)) xs = map (read_item h) xs"
      by (simp add: read_item_ext)
    from Some Array assms(2) show ?thesis by (simp add: read_array_def cell_at_ext eq)
  qed (use Some assms(2) in \<open>simp_all add: read_array_def cell_at_ext\<close>)
qed

lemma read_term_ext:
  "closed h \<Longrightarrow> opt_below (length h) ao \<Longrightarrow> read_term (h @ ys) ao = read_term h ao"
  by (cases ao) (simp_all add: read_term_def opt_below_def read_array_ext)

lemma view_ext:
  assumes "closed h" and "a < length h"
  shows "view (h @ ys) a = view h a"
proof (cases "cell_at h a")
  case None
  with assms(2) show ?thesis by (simp add: cell_at_def)
next
  case (Some c)
  show ?thesis
  proof (cases c)
    case (Node t f tm rs)
    with closed_cell [OF assms(1) Some] have f: "f < length h" and tm: "tm < length h"
      by (simp_all add: cell_below_def)
    have "(case cell_at h tm of
             Some (Terms ts) \<Rightarrow>
               Some \<lparr>s_type = t, s_flags = fl, s_rules = rs,
                     s_terms = map (\<lambda>(k, ao). (k, read_term (h @ ys) ao)) ts\<rparr>
           | _ \<Rightarrow> None) =
          (case cell_at h tm of
             Some (Terms ts) \<Rightarrow>
               Some \<lparr>s_type = t, s_flags = fl, s_rules = rs,
                     s_terms = map (\<lambda>(k, ao). (k, read_term h ao)) ts\<rparr>
           | _ \<Rightarrow> None)" for fl
    proof (cases "cell_at h tm")
      case None
      then show ?thesis by simp
    next
      case (Some d)
      show ?thesis
      proof (cases d)
        case (Terms ts)
        with closed_cell [OF assms(1) Some] have "\<forall>(k, ao)\<in>set ts. opt_below (length h) ao"
          by (simp add: cell_below_def list_all_iff)
        then have eq: "map (\<lambda>(k, ao). (k, read_term (h @ ys) ao)) ts
                 = map (\<lambda>(k, ao). (k, read_term h ao)) ts"
          using assms(1) by (auto simp: read_term_ext)
        from Some Terms show ?thesis by (simp add: eq)
      qed (use Some in simp_all)
    qed
    note eq = this
    from Some Node assms(2) f tm show ?thesis
      by (simp add: view_def cell_at_ext eq split: option.splits cell.splits)
  qed (use Some assms(2) in \<open>simp_all add: view_def cell_at_ext\<close>)
qed

lemma those_map_mem:
  "those (map f xs) = Some ys \<Longrightarrow> y \<in> set ys \<Longrightarrow> \<exists>x\<in>set xs. f x = Some y"
proof (induction xs arbitrary: ys)
  case Nil
  then show ?case by simp
next
  case (Cons x xs)
  then show ?case by (auto split: option.splits)
qed

lemma read_array_below:
  assumes "closed h" and "read_array h a = Some items" and "it \<in> set items"
  shows "item_below (length h) it"
proof -
  from assms(2) obtain xs where "those (map (read_item h) xs) = Some items"
    by (auto simp: read_array_def split: option.splits cell.splits)
  from those_map_mem [OF this assms(3)] obtain x where "read_item h x = Some it" by blast
  then have "cell_at h x = Some (Item it)"
    by (auto simp: read_item_def split: option.splits cell.splits)
  from closed_cell [OF assms(1) this] show ?thesis by (simp add: cell_below_def)
qed

lemma view_below:
  assumes "closed h" and "view h a = Some s" and "(k, Some items) \<in> set (s_terms s)"
    and "it \<in> set items"
  shows "item_below (length h) it"
proof -
  from assms(2) obtain ts where "s_terms s = map (\<lambda>(k, ao). (k, read_term h ao)) ts"
    by (auto simp: view_def split: option.splits cell.splits)
  with assms(3) obtain ao where "read_term h ao = Some items" by auto
  then obtain b where "read_array h b = Some items"
    by (cases ao) (simp_all add: read_term_def)
  from read_array_below [OF assms(1) this assms(4)] show ?thesis .
qed

lemma describe_opt_cong:
  "opt_below n ao \<Longrightarrow> (\<And>a. a < n \<Longrightarrow> d a = d' a) \<Longrightarrow> describe_opt d ao = describe_opt d' ao"
  by (cases ao) (simp_all add: describe_opt_def opt_below_def)

lemma describe_item_cong:
  assumes "item_below n it" and "\<And>a. a < n \<Longrightarrow> d a = d' a"
  shows "describe_item d it = describe_item d' it"
proof (cases it)
  case (IMatch m)
  with assms(1) have "opt_below n (m_schema m)" "opt_below n (m_peek m)" "opt_below n (m_is m)"
    "opt_below n (m_then m)" "opt_below n (m_otherwise m)"
    by (simp_all add: item_below_def)
  then have "describe_opt d (m_schema m) = describe_opt d' (m_schema m)"
    "describe_opt d (m_peek m) = describe_opt d' (m_peek m)"
    "describe_opt d (m_is m) = describe_opt d' (m_is m)"
    "describe_opt d (m_then m) = describe_opt d' (m_then m)"
    "describe_opt d (m_otherwise m) = describe_opt d' (m_otherwise m)"
    using assms(2) by (blast intro: describe_opt_cong)+
  note eqs = this
  show ?thesis by (simp only: describe_item_def IMatch item.case eqs)
qed (simp add: describe_item_def)

lemma describe_terms_cong:
  assumes "\<And>k items it. (k, Some items) \<in> set ts \<Longrightarrow> it \<in> set items \<Longrightarrow> item_below n it"
    and "\<And>a. a < n \<Longrightarrow> d a = d' a"
  shows "describe_terms d ts = describe_terms d' ts"
proof -
  have "map_option (Pair k)
          (those (map (describe_item d) (case items of Some xs \<Rightarrow> xs | None \<Rightarrow> []))) =
        map_option (Pair k)
          (those (map (describe_item d') (case items of Some xs \<Rightarrow> xs | None \<Rightarrow> [])))"
    if "(k, items) \<in> set ts" for k items
  proof (cases items)
    case None
    then show ?thesis by simp
  next
    case (Some xs)
    with that assms(1) have "\<And>it. it \<in> set xs \<Longrightarrow> item_below n it" by blast
    then have eq: "map (describe_item d) xs = map (describe_item d') xs"
      using assms(2) by (auto intro: describe_item_cong)
    from Some show ?thesis by (simp add: eq)
  qed
  then show ?thesis unfolding describe_terms_def
    by (auto intro!: arg_cong [where f = those] map_cong)
qed

lemma describe_ext:
  assumes "closed h"
  shows "a < length h \<Longrightarrow> describe_schema n (h @ ys) a = describe_schema n h a"
proof (induction n arbitrary: a)
  case 0
  then show ?case by simp
next
  case (Suc n)
  show ?case
  proof (cases "view h a")
    case None
    with view_ext [OF assms Suc.prems] show ?thesis by simp
  next
    case (Some s)
    have "describe_terms (describe_schema n (h @ ys)) (s_terms s)
        = describe_terms (describe_schema n h) (s_terms s)"
      using view_below [OF assms Some] Suc.IH by (rule describe_terms_cong)
    with Some view_ext [OF assms Suc.prems] show ?thesis by simp
  qed
qed

lemma describe_frame:
  assumes "closed h" and "kept (length h) h h'" and "a < length h"
  shows "describe_schema n h' a = describe_schema n h a"
proof -
  from kept_prefix [OF assms(2)] obtain ys where "h' = h @ ys" by blast
  with describe_ext [OF assms(1) assms(3)] show ?thesis by simp
qed

subsection \<open>The builder methods\<close>

lemma try_fresh:
  assumes B: "compile_extends B" and t: "try_method B h this x = Inr (h', S)"
  shows "fresh (length h) S h' \<and> kept (length h) h h'"
proof -
  from t obtain h1 obj h2 xs where c: "clone h this = Inr (h1, obj)"
    and l: "try_loop B h1 obj xs = Inr h2"
    and m: "mutateRebuild h2 obj = Inr (h', S)"
    unfolding try_method_def
    by (auto simp: and_then_Inr_iff split: if_splits)
  from fresh_clone [OF c] have i1: "fresh (length h) obj h1" and k1: "kept (length h) h h1"
    by simp_all
  from i1 have "owned (length h) h1 obj" and "length h \<le> length h1" by (simp_all add: fresh_def)
  from try_loop_owned [OF B l this] have k2: "kept (length h) h1 h2"
    and o2: "owned (length h) h2 obj" by simp_all
  from k2 i1 have "length h \<le> length h2" by (simp add: kept_def fresh_def)
  with o2 have i2: "fresh (length h) obj h2" by (simp add: fresh_def)
  from mutateRebuild_fresh [OF m i2] k1 k2 show ?thesis by (blast intro: kept_trans)
qed

lemma replace_fresh:
  assumes "rules_replace esc h this p r = Inr (h', S)"
  shows "fresh (length h) S h' \<and> kept (length h) h h'"
proof -
  from assms obtain p' f' r' where
    m: "and_then (clone h this) (\<lambda>(h1, obj).
          and_then (term_array h1 obj ''replacements'') (\<lambda>ao.
          and_then
            (case ao of
               None \<Rightarrow>
                 (case alloc h1 (Array []) of
                    (h2, arr) \<Rightarrow> set_term h2 obj ''replacements'' arr)
             | Some _ \<Rightarrow> Inr h1)
            (\<lambda>h3.
          and_then (push_term h3 obj ''replacements'' (IReplacement p' f' r')) (\<lambda>h4.
            Inr (h4, obj))))) = Inr (h', S)"
    unfolding rules_replace_def
    by (auto split: option.splits jsval.splits)
  then obtain h1 ao h3 where c: "clone h this = Inr (h1, S)"
    and ta: "term_array h1 S ''replacements'' = Inr ao"
    and s: "(case ao of
               None \<Rightarrow>
                 (case alloc h1 (Array []) of
                    (h2, arr) \<Rightarrow> set_term h2 S ''replacements'' arr)
             | Some _ \<Rightarrow> Inr h1) = Inr h3"
    and pu: "push_term h3 S ''replacements'' (IReplacement p' f' r') = Inr h'"
    by (auto simp: and_then_Inr_iff)
  from fresh_clone [OF c] have i1: "fresh (length h) S h1" and k1: "kept (length h) h h1"
    by simp_all
  have "fresh (length h) S h3 \<and> kept (length h) h1 h3"
  proof (cases ao)
    case None
    with s have st: "set_term (h1 @ [Array []]) S ''replacements'' (length h1) = Inr h3"
      by (simp add: alloc_def)
    have i2: "fresh (length h) S (h1 @ [Array []])" and k2: "kept (length h) h1 (h1 @ [Array []])"
      using fresh_ext [OF ext_append i1] by simp_all
    have "length h \<le> length h1"
      using i1 by (simp add: fresh_def)
    from fresh_set_term [OF st i2 this] show ?thesis
      using k2 kept_trans by blast
  next
    case (Some a)
    with s i1 show ?thesis by (simp add: kept_refl)
  qed
  then have i3: "fresh (length h) S h3" and k3: "kept (length h) h1 h3"
    by simp_all
  from fresh_push [OF pu i3] k1 k3 show ?thesis by (blast intro: kept_trans)
qed

lemma compile_extends_schema_compile: "compile_extends schema_compile"
  by (auto simp: compile_extends_def schema_compile_def kept_refl split: arg.splits)

lemma closed_try_heap: "closed try_heap"
  by (simp add: closed_def try_heap_def cell_below_def item_below_def opt_below_def
      schema_match_def)

lemma try_again: "try_method schema_compile try_heap 16 (ASchema 2) = Inr (try_again_heap, 22)"
  by (simp add: try_method_def arg_truthy_def ended_switch_def view_def cell_at_def try_heap_def
      read_term_def read_array_def read_item_def flag_def js_truthy_def and_then_def clone_def
      alloc_def as_array_def schema_compile_def push_term_def term_array_def mutateRebuild_def
      rebuild_def terms_of_def match_has_array_def type_at_def schema_match_def
      try_again_heap_def)

subsection \<open>\<open>label\<close> returns\<close>

lemma copied_mono: "m \<le> n \<Longrightarrow> copied h n e' e \<Longrightarrow> copied h m e' e"
  unfolding copied_def by (cases "snd e") auto

lemma slice_terms_copy:
  "slice_terms hy ts = Inr (h2, ts') \<Longrightarrow> list_all2 (copied h2 (length hy)) ts' ts"
proof (induction hy ts arbitrary: h2 ts' rule: slice_terms.induct)
  case (1 h)
  then show ?case by simp
next
  case (2 h k ts)
  from "2.prems" obtain ts2 where s: "slice_terms h ts = Inr (h2, ts2)"
    and r: "ts' = (k, None) # ts2"
    by (auto simp: and_then_Inr_iff)
  from "2.IH" [OF s] show ?case
    unfolding r by (simp add: copied_def)
next
  case (3 h k a ts)
  from "3.prems" obtain xs ts2 where
    x: "cell_at h a = Some (Array xs)"
    and s: "slice_terms (h @ [Array xs]) ts = Inr (h2, ts2)"
    and r: "ts' = (k, Some (length h)) # ts2"
    by (auto simp: and_then_Inr_iff alloc_def split: option.splits cell.splits)
  have al: "(h @ [Array xs], length h) = alloc h (Array xs)"
    by (simp add: alloc_def)
  from "3.IH" [OF x refl al s]
  have ih: "list_all2 (copied h2 (length (h @ [Array xs]))) ts2 ts" .
  have "copied h2 (length h) e' e" if "copied h2 (length (h @ [Array xs])) e' e" for e' e
    using that by (intro copied_mono [of "length h" "length (h @ [Array xs])"]) simp_all
  with ih have t: "list_all2 (copied h2 (length h)) ts2 ts"
    by (rule list_all2_mono)
  from slice_terms_ext [OF s] have k: "kept (length (h @ [Array xs])) (h @ [Array xs]) h2"
    by simp
  have c1: "cell_at h2 (length h) = Some (Array xs)"
    by (rule ext_cell [OF k]) (simp add: cell_at_def)
  have c2: "cell_at h2 a = Some (Array xs)"
    by (rule ext_cell [OF k]) (use x in \<open>simp add: cell_at_append\<close>)
  from k have "length h < length h2" by (simp add: kept_def)
  with c1 c2 have "copied h2 (length h) (k, Some (length h)) (k, Some a)"
    by (simp add: copied_def)
  with t show ?case unfolding r by simp
qed

lemma read_copy:
  assumes "closed h" and "cell_at h a = Some (Array xs)" and "cell_at (h @ zs) a' = Some (Array xs)"
  shows "read_array (h @ zs) a' = read_array h a"
proof -
  from closed_cell [OF assms(1) assms(2)] have "\<forall>x\<in>set xs. x < length h"
    by (simp add: cell_below_def list_all_iff)
  then have eq: "map (read_item (h @ zs)) xs = map (read_item h) xs"
    by (simp add: read_item_ext)
  from assms(2) assms(3) show ?thesis by (simp add: read_array_def eq)
qed

lemma list_all2_map_eq:
  "list_all2 R xs ys \<Longrightarrow> (\<And>x y. R x y \<Longrightarrow> y \<in> set ys \<Longrightarrow> f x = g y) \<Longrightarrow> map f xs = map g ys"
  by (induction rule: list_all2_induct) auto

lemma setFlag_view:
  assumes cl: "closed h" and a: "a < length h"
    and s: "setFlag (h @ ys) a k v = Inr (h1, obj)"
  shows "\<exists>sc s1. view h a = Some sc \<and> view h1 obj = Some s1 \<and> s_terms s1 = s_terms sc"
proof -
  from s obtain h0 where c: "clone (h @ ys) a = Inr (h0, obj)"
    and sf: "setFlag_here h0 obj k v = Inr h1"
    by (auto simp: setFlag_def and_then_Inr_iff)
  from c obtain t f tm rs fl ts h2 ts' where
    c0: "cell_at (h @ ys) a = Some (Node t f tm rs)" "cell_at (h @ ys) f = Some (Flags fl)"
       "cell_at (h @ ys) tm = Some (Terms ts)"
    and sl: "slice_terms (h @ ys @ [Flags fl]) ts = Inr (h2, ts')"
    and r: "h0 = h2 @ [Terms ts'] @ [Node t (length (h @ ys)) (length h2) rs]"
      "obj = Suc (length h2)"
    by (auto simp: clone_def and_then_def alloc_def split: option.splits cell.splits sum.splits)
  from c0(1) a have n: "cell_at h a = Some (Node t f tm rs)" by (simp add: cell_at_ext)
  from closed_cell [OF cl n] have b: "f < length h" "tm < length h"
    by (simp_all add: cell_below_def)
  with c0 have fc: "cell_at h f = Some (Flags fl)" and tc: "cell_at h tm = Some (Terms ts)"
    by (simp_all add: cell_at_ext)
  from n fc tc have v: "view h a = Some \<lparr>s_type = t, s_flags = fl, s_rules = rs,
      s_terms = map (\<lambda>(k, ao). (k, read_term h ao)) ts\<rparr>"
    by (simp add: view_def)
  from slice_terms_ext [OF sl] have k2: "kept (length (h @ ys @ [Flags fl])) (h @ ys @ [Flags fl]) h2"
    by simp
  then have l2: "length (h @ ys) < length h2" by (simp add: kept_def)
  from kept_prefix [OF k2] obtain ws where h2: "h2 = h @ ys @ [Flags fl] @ ws" by auto
  have f0: "cell_at h0 (length (h @ ys)) = Some (Flags fl)"
    unfolding r h2 by (simp add: cell_at_def nth_append)
  have o0: "cell_at h0 obj = Some (Node t (length (h @ ys)) (length h2) rs)"
    unfolding r by (simp add: cell_at_def nth_append)
  from sf o0 f0 have h1: "h1 = h0[length (h @ ys) := Flags (assoc_set fl k v)]"
    by (simp add: setFlag_here_def)
  have lh0: "length (h @ ys) < length h0" unfolding r using l2 by simp
  have o1: "cell_at h1 obj = Some (Node t (length (h @ ys)) (length h2) rs)"
    unfolding h1 using o0 r(2) l2 by (simp add: cell_at_update)
  have f1: "cell_at h1 (length (h @ ys)) = Some (Flags (assoc_set fl k v))"
    unfolding h1 using lh0 by (simp add: cell_at_update)
  have t1: "cell_at h1 (length h2) = Some (Terms ts')"
    unfolding h1 using l2 by (simp add: cell_at_update) (simp add: r cell_at_def nth_append)
  from o1 f1 t1 have v1: "view h1 obj = Some \<lparr>s_type = t, s_flags = assoc_set fl k v,
      s_rules = rs, s_terms = map (\<lambda>(k, ao). (k, read_term h1 ao)) ts'\<rparr>"
    by (simp add: view_def)
  obtain zs where z: "h1 = h @ zs"
  proof -
    have "take (length h) h1 = h" unfolding h1 r h2 by simp
    then have "h1 = h @ drop (length h) h1" by (metis append_take_drop_id)
    then show ?thesis by (rule that)
  qed
  have "map (\<lambda>(k, ao). (k, read_term h1 ao)) ts' = map (\<lambda>(k, ao). (k, read_term h ao)) ts"
  proof (rule list_all2_map_eq [OF slice_terms_copy [OF sl]])
    fix e' e
    assume cp: "copied h2 (length (h @ ys @ [Flags fl])) e' e" and m: "e \<in> set ts"
    show "(case e' of (k, ao) \<Rightarrow> (k, read_term h1 ao)) = (case e of (k, ao) \<Rightarrow> (k, read_term h ao))"
    proof (cases "snd e")
      case None
      with cp show ?thesis
        by (cases e'; cases e) (simp add: copied_def read_term_def)
    next
      case (Some a0)
      with cp obtain a' xs where e': "snd e' = Some a'" "fst e' = fst e"
        and b': "length (h @ ys @ [Flags fl]) \<le> a'" "a' < length h2"
        and x: "cell_at h2 a' = Some (Array xs)" "cell_at h2 a0 = Some (Array xs)"
        by (auto simp: copied_def)
      from closed_cell [OF cl tc] m Some have "a0 < length h"
        by (cases e) (auto simp: cell_below_def list_all_iff opt_below_def)
      with x(2) have x0: "cell_at h a0 = Some (Array xs)"
        unfolding h2 by (simp add: cell_at_ext)
      from x(1) b' have "cell_at h1 a' = Some (Array xs)"
        unfolding h1 r by (simp add: cell_at_update) (simp add: cell_at_def nth_append)
      with z have "cell_at (h @ zs) a' = Some (Array xs)" by simp
      from read_copy [OF cl x0 this] z e' Some show ?thesis
        by (cases e'; cases e) (simp add: read_term_def)
    qed
  qed
  with v v1 show ?thesis by simp
qed

lemma and_then_opt_Some:
  assumes "\<exists>r. m = Some r" and "\<And>x. m = Some (Inr x) \<Longrightarrow> \<exists>r. f x = Some r"
  shows "\<exists>r. and_then_opt m f = Some r"
proof -
  from assms(1) obtain r where r: "m = Some r" by blast
  show ?thesis
  proof (cases r)
    case (Inl e)
    with r show ?thesis by (simp add: and_then_opt_def)
  next
    case (Inr x)
    with r assms(2) [of x] show ?thesis by (simp add: and_then_opt_def)
  qed
qed

lemma label_opt_returns:
  assumes "returns_on lab h (case ao of Some c \<Rightarrow> [c] | None \<Rightarrow> [])"
  shows "\<exists>r. label_opt lab (h @ ys) ao = Some r"
proof (cases ao)
  case None
  then show ?thesis by (simp add: label_opt_def)
next
  case (Some c)
  with assms have "\<exists>r. lab (h @ ys) c = Some r" by (simp add: returns_on_def)
  then have "\<exists>r. and_then_opt (lab (h @ ys) c) (\<lambda>(h1, a'). Some (Inr (h1, Some a'))) = Some r"
    by (rule and_then_opt_Some) auto
  with Some show ?thesis by (simp add: label_opt_def)
qed

lemma ext_of: "kept (length (h @ ys)) (h @ ys) h' \<Longrightarrow> \<exists>zs. h' = h @ zs"
  by (drule kept_prefix) auto

lemma label_match_returns:
  assumes L: "lab_ext lab" and R: "returns_on lab h (item_children it)"
  shows "\<exists>r. label_match lab (h @ ys) it = Some r"
proof (cases it)
  case (IReplacement p f r)
  then show ?thesis by (simp add: label_match_def)
next
  case (IMatch m)
  show ?thesis
  proof (cases "m_schema m")
    case (Some c)
    with R IMatch have "\<exists>r. lab (h @ ys) c = Some r"
      by (simp add: returns_on_def item_children_def)
    then have "\<exists>r. and_then_opt (lab (h @ ys) c)
                 (\<lambda>(h1, c'). Some (Inr (h1, IMatch (schema_match c')))) = Some r"
      by (rule and_then_opt_Some) auto
    with IMatch Some show ?thesis by (simp add: label_match_def)
  next
    case None
    with R IMatch have
      rt: "returns_on lab h (case m_then m of Some c \<Rightarrow> [c] | None \<Rightarrow> [])"
      and ro: "returns_on lab h (case m_otherwise m of Some c \<Rightarrow> [c] | None \<Rightarrow> [])"
      by (auto simp: returns_on_def item_children_def)
    have "\<exists>r. and_then_opt (label_opt lab (h @ ys) (m_then m)) (\<lambda>(h1, th).
               and_then_opt (label_opt lab h1 (m_otherwise m)) (\<lambda>(h2, ow).
                 Some (Inr (h2, IMatch (m\<lparr>m_then := th, m_otherwise := ow\<rparr>))))) = Some r"
    proof (rule and_then_opt_Some [OF label_opt_returns [OF rt]])
      fix x
      assume a: "label_opt lab (h @ ys) (m_then m) = Some (Inr x)"
      obtain h1 th where x: "x = (h1, th)" by (cases x)
      from label_opt_ext [OF L a [unfolded x]] obtain zs where "h1 = h @ zs"
        using ext_of by blast
      with label_opt_returns [OF ro, of zs]
      have "\<exists>r. and_then_opt (label_opt lab h1 (m_otherwise m)) (\<lambda>(h2, ow).
                 Some (Inr (h2, IMatch (m\<lparr>m_then := th, m_otherwise := ow\<rparr>)))) = Some r"
        by (intro and_then_opt_Some) auto
      with x show "\<exists>r. (case x of (h1, th) \<Rightarrow>
               and_then_opt (label_opt lab h1 (m_otherwise m)) (\<lambda>(h2, ow).
                 Some (Inr (h2, IMatch (m\<lparr>m_then := th, m_otherwise := ow\<rparr>))))) = Some r"
        by simp
    qed
    with IMatch None show ?thesis by (simp add: label_match_def)
  qed
qed

lemma label_items_returns:
  assumes L: "lab_ext lab"
  shows "returns_on lab h (concat (map item_children items))
         \<Longrightarrow> \<exists>r. label_items lab (h @ ys) items = Some r"
proof (induction items arbitrary: ys)
  case Nil
  then show ?case by simp
next
  case (Cons it items)
  from Cons.prems have r1: "returns_on lab h (item_children it)"
    and r2: "returns_on lab h (concat (map item_children items))"
    by (auto simp: returns_on_def)
  have "\<exists>r. and_then_opt (label_match lab (h @ ys) it) (\<lambda>(h1, it').
     and_then_opt (label_items lab h1 items) (\<lambda>(h2, its).
       Some (Inr (h2, it' # its)))) = Some r"
  proof (rule and_then_opt_Some [OF label_match_returns [OF L r1]])
    fix x
    assume a: "label_match lab (h @ ys) it = Some (Inr x)"
    obtain h1 it' where x: "x = (h1, it')" by (cases x)
    from label_match_ext [OF L a [unfolded x]] obtain zs where "h1 = h @ zs"
      using ext_of by blast
    with Cons.IH [OF r2, of zs]
    have "\<exists>r. and_then_opt (label_items lab h1 items) (\<lambda>(h2, its).
       Some (Inr (h2, it' # its))) = Some r"
      by (intro and_then_opt_Some) auto
    with x show "\<exists>r. (case x of (h1, it') \<Rightarrow>
     and_then_opt (label_items lab h1 items) (\<lambda>(h2, its).
       Some (Inr (h2, it' # its)))) = Some r"
      by simp
  qed
  then show ?case by simp
qed

lemma branches_below:
  assumes "closed h" and "c \<in> set (branches h a)"
  shows "c < length h"
proof -
  from assms(2) obtain items it where m: "matches_of h a = Inr items"
    and i: "it \<in> set items" and c: "c \<in> set (item_children it)"
    by (cases "matches_of h a") (auto simp: branches_def)
  from m obtain s where v: "view h a = Some s" and t: "terms_of s ''matches'' = Some items"
    by (auto simp: matches_of_def split: option.splits)
  from t have "(''matches'', Some items) \<in> set (s_terms s)"
    by (auto simp: terms_of_def split: option.splits dest: map_of_SomeD)
  from view_below [OF assms(1) v this i] have "item_below (length h) it" .
  with c show ?thesis
    by (auto simp: item_below_def item_children_def opt_below_def
        split: item.splits option.splits)
qed

lemma base_label_matches:
  assumes "closed h" and "a < length h" and "base_label (h @ ys) a name = Inr (h1, obj)"
  shows "matches_of h1 obj = matches_of h a"
proof -
  from assms(3) have "setFlag (h @ ys) a ''label'' (JStr name) = Inr (h1, obj)"
    by (simp add: base_label_def split: if_splits)
  from setFlag_view [OF assms(1) assms(2) this] show ?thesis
    by (auto simp: matches_of_def terms_of_def)
qed

lemma overrides_label_returns:
  assumes L: "lab_ext (\<lambda>h c. lab h c name)" and cl: "closed h" and a: "a < length h"
    and R: "returns_on (\<lambda>h c. lab h c name) h (branches h a)"
  shows "\<exists>r. overrides_label lab (h @ ys) a name = Some r"
  unfolding overrides_label_def
proof (rule and_then_opt_Some)
  show "\<exists>r. Some (base_label (h @ ys) a name) = Some r" by simp
next
  fix x
  assume "Some (base_label (h @ ys) a name) = Some (Inr x)"
  moreover obtain h1 obj where x: "x = (h1, obj)" by (cases x)
  ultimately have b: "base_label (h @ ys) a name = Inr (h1, obj)" by simp
  from base_label_fresh [OF b] obtain zs where z: "h1 = h @ zs"
    using ext_of by blast
  have "\<exists>r. and_then_opt (Some (matches_of h1 obj)) (\<lambda>items.
     and_then_opt (label_items (\<lambda>h c. lab h c name) h1 items) (\<lambda>(h2, items').
       case alloc_items h2 items' of
         (h3, as) \<Rightarrow>
           (case alloc h3 (Array as) of
              (h4, arr) \<Rightarrow>
                Some (and_then (set_term h4 obj ''matches'' arr) (\<lambda>h5. Inr (h5, obj)))))) = Some r"
  proof (rule and_then_opt_Some)
    show "\<exists>r. Some (matches_of h1 obj) = Some r" by simp
  next
    fix items
    assume "Some (matches_of h1 obj) = Some (Inr items)"
    with base_label_matches [OF cl a b] have "matches_of h a = Inr items" by simp
    with R have "returns_on (\<lambda>h c. lab h c name) h (concat (map item_children items))"
      by (simp add: branches_def)
    from label_items_returns [OF L this, of zs]
    show "\<exists>r. and_then_opt (label_items (\<lambda>h c. lab h c name) h1 items) (\<lambda>(h2, items').
       case alloc_items h2 items' of
         (h3, as) \<Rightarrow>
           (case alloc h3 (Array as) of
              (h4, arr) \<Rightarrow>
                Some (and_then (set_term h4 obj ''matches'' arr) (\<lambda>h5. Inr (h5, obj))))) = Some r"
      unfolding z by (rule and_then_opt_Some) (auto split: prod.splits)
  qed
  with x show "\<exists>r. (case x of (h1, obj) \<Rightarrow>
     and_then_opt (Some (matches_of h1 obj)) (\<lambda>items.
     and_then_opt (label_items (\<lambda>h c. lab h c name) h1 items) (\<lambda>(h2, items').
       case alloc_items h2 items' of
         (h3, as) \<Rightarrow>
           (case alloc h3 (Array as) of
              (h4, arr) \<Rightarrow>
                Some (and_then (set_term h4 obj ''matches'' arr) (\<lambda>h5. Inr (h5, obj))))))) = Some r"
    by simp
qed

lemma label_returns:
  assumes cl: "closed h"
  shows "a < length h \<Longrightarrow> nested n h a \<Longrightarrow> \<exists>r. label n (h @ ys) a name = Some r"
proof (induction n arbitrary: a ys)
  case 0
  then show ?case by simp
next
  case (Suc n)
  have t: "type_at (h @ ys) a = type_at h a"
    using Suc.prems(1) by (simp add: type_at_def cell_at_ext)
  show ?case
  proof (cases "type_at h a = Some ''alternatives''")
    case False
    with t show ?thesis by simp
  next
    case True
    with Suc.prems(2) have n: "list_all (nested n h) (branches h a)" by simp
    have L: "lab_ext (\<lambda>h c. label n h c name)"
      unfolding lab_ext_def using label_fresh by blast
    have R: "returns_on (\<lambda>h c. label n h c name) h (branches h a)"
      unfolding returns_on_def
    proof (intro allI ballI)
      fix zs c
      assume c: "c \<in> set (branches h a)"
      with n have "nested n h c" by (simp add: list_all_iff)
      with branches_below [OF cl c] show "\<exists>r. label n (h @ zs) c name = Some r"
        by (rule Suc.IH)
    qed
    from overrides_label_returns [where lab = "label n" and name = name, OF L cl Suc.prems(1) R,
        of ys] True t
    show ?thesis by simp
  qed
qed

lemma and_then_opt_mono:
  assumes "and_then_opt m f = Some r" and "\<And>y. m = Some y \<Longrightarrow> m' = Some y"
    and "\<And>x. m = Some (Inr x) \<Longrightarrow> f x = Some r \<Longrightarrow> g x = Some r"
  shows "and_then_opt m' g = Some r"
proof (cases m)
  case None
  with assms(1) show ?thesis by (simp add: and_then_opt_def)
next
  case (Some y)
  with assms(2) have m': "m' = Some y" by simp
  show ?thesis
  proof (cases y)
    case (Inl e)
    with Some m' assms(1) show ?thesis by (simp add: and_then_opt_def)
  next
    case (Inr x)
    with Some assms(1) have "f x = Some r" by (simp add: and_then_opt_def)
    with assms(3) [of x] Some Inr have "g x = Some r" by simp
    with m' Inr show ?thesis by (simp add: and_then_opt_def)
  qed
qed

lemma label_opt_mono:
  assumes "lab_le lab lab'" and "label_opt lab h ao = Some r"
  shows "label_opt lab' h ao = Some r"
proof (cases ao)
  case None
  with assms(2) show ?thesis by (simp add: label_opt_def)
next
  case (Some a)
  with assms(2) have "and_then_opt (lab h a) (\<lambda>(h1, a'). Some (Inr (h1, Some a'))) = Some r"
    by (simp add: label_opt_def)
  then have "and_then_opt (lab' h a) (\<lambda>(h1, a'). Some (Inr (h1, Some a'))) = Some r"
    by (rule and_then_opt_mono) (use assms(1) in \<open>auto simp: lab_le_def\<close>)
  with Some show ?thesis by (simp add: label_opt_def)
qed

lemma label_match_mono:
  assumes L: "lab_le lab lab'" and m: "label_match lab h it = Some r"
  shows "label_match lab' h it = Some r"
proof (cases it)
  case (IReplacement p f r)
  with m show ?thesis by (simp add: label_match_def)
next
  case (IMatch x)
  show ?thesis
  proof (cases "m_schema x")
    case (Some c)
    with m IMatch have
      "and_then_opt (lab h c) (\<lambda>(h1, c'). Some (Inr (h1, IMatch (schema_match c')))) = Some r"
      by (simp add: label_match_def)
    then have
      "and_then_opt (lab' h c) (\<lambda>(h1, c'). Some (Inr (h1, IMatch (schema_match c')))) = Some r"
      by (rule and_then_opt_mono) (use L in \<open>auto simp: lab_le_def\<close>)
    with IMatch Some show ?thesis by (simp add: label_match_def)
  next
    case None
    with m IMatch have
      "and_then_opt (label_opt lab h (m_then x)) (\<lambda>(h1, th).
         and_then_opt (label_opt lab h1 (m_otherwise x)) (\<lambda>(h2, ow).
           Some (Inr (h2, IMatch (x\<lparr>m_then := th, m_otherwise := ow\<rparr>))))) = Some r"
      by (simp add: label_match_def)
    then have
      "and_then_opt (label_opt lab' h (m_then x)) (\<lambda>(h1, th).
         and_then_opt (label_opt lab' h1 (m_otherwise x)) (\<lambda>(h2, ow).
           Some (Inr (h2, IMatch (x\<lparr>m_then := th, m_otherwise := ow\<rparr>))))) = Some r"
    proof (rule and_then_opt_mono)
      fix y
      assume "label_opt lab h (m_then x) = Some y"
      with L show "label_opt lab' h (m_then x) = Some y" by (rule label_opt_mono)
    next
      fix p
      assume "(case p of (h1, th) \<Rightarrow>
         and_then_opt (label_opt lab h1 (m_otherwise x)) (\<lambda>(h2, ow).
           Some (Inr (h2, IMatch (x\<lparr>m_then := th, m_otherwise := ow\<rparr>))))) = Some r"
      then show "(case p of (h1, th) \<Rightarrow>
         and_then_opt (label_opt lab' h1 (m_otherwise x)) (\<lambda>(h2, ow).
           Some (Inr (h2, IMatch (x\<lparr>m_then := th, m_otherwise := ow\<rparr>))))) = Some r"
        by (cases p) (auto elim!: and_then_opt_mono intro: label_opt_mono [OF L])
    qed
    with IMatch None show ?thesis by (simp add: label_match_def)
  qed
qed

lemma label_items_mono:
  assumes L: "lab_le lab lab'"
  shows "label_items lab h items = Some r \<Longrightarrow> label_items lab' h items = Some r"
proof (induction items arbitrary: h r)
  case Nil
  then show ?case by simp
next
  case (Cons it items)
  from Cons.prems have
    "and_then_opt (label_match lab h it) (\<lambda>(h1, it').
       and_then_opt (label_items lab h1 items) (\<lambda>(h2, its). Some (Inr (h2, it' # its)))) = Some r"
    by simp
  then have
    "and_then_opt (label_match lab' h it) (\<lambda>(h1, it').
       and_then_opt (label_items lab' h1 items) (\<lambda>(h2, its). Some (Inr (h2, it' # its)))) = Some r"
  proof (rule and_then_opt_mono)
    fix y
    assume "label_match lab h it = Some y"
    with L show "label_match lab' h it = Some y" by (rule label_match_mono)
  next
    fix p
    assume "(case p of (h1, it') \<Rightarrow>
       and_then_opt (label_items lab h1 items) (\<lambda>(h2, its). Some (Inr (h2, it' # its)))) = Some r"
    then show "(case p of (h1, it') \<Rightarrow>
       and_then_opt (label_items lab' h1 items) (\<lambda>(h2, its). Some (Inr (h2, it' # its)))) = Some r"
      by (cases p) (auto elim!: and_then_opt_mono intro: Cons.IH)
  qed
  then show ?case by simp
qed

lemma overrides_label_mono:
  assumes L: "lab_le (\<lambda>h c. lab h c name) (\<lambda>h c. lab' h c name)"
    and o: "overrides_label lab h this name = Some r"
  shows "overrides_label lab' h this name = Some r"
  using o unfolding overrides_label_def
  by (auto elim!: and_then_opt_mono intro: label_items_mono [OF L])

lemma label_Suc: "label n h this name = Some r \<Longrightarrow> label (Suc n) h this name = Some r"
proof (induction n arbitrary: h this r)
  case 0
  then show ?case by simp
next
  case (Suc n)
  show ?case
  proof (cases "type_at h this = Some ''alternatives''")
    case False
    with Suc.prems show ?thesis by simp
  next
    case True
    from Suc.IH have "lab_le (\<lambda>h c. label n h c name) (\<lambda>h c. label (Suc n) h c name)"
      unfolding lab_le_def by blast
    moreover from Suc.prems True have "overrides_label (label n) h this name = Some r" by simp
    ultimately have "overrides_label (label (Suc n)) h this name = Some r"
      by (rule overrides_label_mono)
    with True show ?thesis by simp
  qed
qed

lemma label_fuel: "label n h this name = Some r \<Longrightarrow> n \<le> m \<Longrightarrow> label m h this name = Some r"
  by (induction m) (auto simp: le_Suc_eq dest: label_Suc simp del: label.simps)

lemma label_try_heap: "label 3 try_heap 16 ''x'' = Some (Inr (label_heap, 22))"
  by (simp add: numeral_3_eq_3 type_at_def cell_at_def try_heap_def overrides_label_def
      base_label_def setFlag_def clone_def alloc_def and_then_def and_then_opt_def
      setFlag_here_def matches_of_def view_def read_term_def read_array_def read_item_def
      terms_of_def label_match_def label_opt_def schema_match_def set_term_def label_heap_def)

lemma nested_try_heap: "nested 3 try_heap 16"
  by (simp add: numeral_3_eq_3 type_at_def cell_at_def try_heap_def branches_def matches_of_def
      view_def read_term_def read_array_def read_item_def terms_of_def item_children_def
      schema_match_def)

text \<open>
  C6. A builder call (\<open>replace\<close> of a string schema, \<open>try\<close>, \<open>when\<close> and \<open>label\<close> of an
  alternatives schema) that returns, returns a new schema node: its address was not in
  the store, and its flags object, terms object and term arrays are new as well. The
  call changes no cell the store had, so in a closed store every schema that existed,
  the receiver among them, has the description it had before the call, at every depth.
  And \<open>label\<close> does come to an end: on a schema of a closed store, every depth above the
  nesting of the schema gives one and the same result.
\<close>

theorem builders_frame:
  assumes "closed h" and "compile_extends B"
  shows "(rules_replace esc h S p r = Inr (h', S') \<or> try_method B h S x = Inr (h', S')
          \<or> when_method B h S c opts = Inr (h', S') \<or> label n h S name = Some (Inr (h', S'))
          \<longrightarrow> length h \<le> S' \<and> owned (length h) h' S' \<and> kept (length h) h h'
              \<and> (\<forall>k a. a < length h \<longrightarrow> describe_schema k h' a = describe_schema k h a))
       \<and> (S < length h \<and> nested n h S
          \<longrightarrow> (\<exists>res. \<forall>m. n \<le> m \<longrightarrow> label m h S name = Some res))"
proof (rule conjI; rule impI)
  assume "rules_replace esc h S p r = Inr (h', S') \<or> try_method B h S x = Inr (h', S')
          \<or> when_method B h S c opts = Inr (h', S') \<or> label n h S name = Some (Inr (h', S'))"
  then have "fresh (length h) S' h' \<and> kept (length h) h h'"
    by (elim disjE) (rule replace_fresh try_fresh [OF assms(2)] when_fresh [OF assms(2)] label_fresh,
        assumption)+
  then have i: "fresh (length h) S' h'" and k: "kept (length h) h h'" by simp_all
  from i have "length h \<le> S'" and "owned (length h) h' S'"
    by (simp_all add: fresh_new fresh_def)
  moreover from describe_frame [OF assms(1) k]
  have "\<forall>k a. a < length h \<longrightarrow> describe_schema k h' a = describe_schema k h a" by blast
  ultimately show "length h \<le> S' \<and> owned (length h) h' S' \<and> kept (length h) h h'
              \<and> (\<forall>k a. a < length h \<longrightarrow> describe_schema k h' a = describe_schema k h a)"
    using k by blast
next
  assume "S < length h \<and> nested n h S"
  then have "\<exists>res. label n (h @ []) S name = Some res"
    by (intro label_returns [OF assms(1)]) simp_all
  then obtain res where "label n h S name = Some res" by auto
  then have "\<forall>m. n \<le> m \<longrightarrow> label m h S name = Some res"
    by (blast intro: label_fuel)
  then show "\<exists>res. \<forall>m. n \<le> m \<longrightarrow> label m h S name = Some res" ..
qed

theorem builders_frame_witness:
  "closed try_heap \<and> compile_extends schema_compile
   \<and> try_method schema_compile try_heap 16 (ASchema 2) = Inr (try_again_heap, 22)
   \<and> length try_heap \<le> 22 \<and> owned (length try_heap) try_again_heap 22
   \<and> kept (length try_heap) try_heap try_again_heap
   \<and> describe_schema 3 try_again_heap 16 = describe_schema 3 try_heap 16
   \<and> 16 < length try_heap \<and> nested 3 try_heap 16
   \<and> label 3 try_heap 16 ''x'' = Some (Inr (label_heap, 22))
   \<and> label 5 try_heap 16 ''x'' = Some (Inr (label_heap, 22))
   \<and> owned (length try_heap) label_heap 22
   \<and> kept (length try_heap) try_heap label_heap
   \<and> describe_schema 3 label_heap 16 = describe_schema 3 try_heap 16"
proof -
  note b = builders_frame [OF closed_try_heap compile_extends_schema_compile]
  note t = b [THEN conjunct1, THEN mp, OF disjI2 [OF disjI1 [OF try_again]]]
  note l = b [THEN conjunct1, THEN mp, OF disjI2 [OF disjI2 [OF disjI2 [OF label_try_heap]]]]
  have lt: "(16::nat) < length try_heap" by (simp add: try_heap_def)
  from b [THEN conjunct2, THEN mp, OF conjI [OF lt nested_try_heap], of "''x''"]
  obtain res where r: "\<forall>m. 3 \<le> m \<longrightarrow> label m try_heap 16 ''x'' = Some res" by blast
  then have "label 3 try_heap 16 ''x'' = Some res" by simp
  with label_try_heap have "res = Inr (label_heap, 22)" by simp
  with r have 5: "label 5 try_heap 16 ''x'' = Some (Inr (label_heap, 22))" by simp
  from t lt have dt: "describe_schema 3 try_again_heap 16 = describe_schema 3 try_heap 16"
    by blast
  from l lt have dl: "describe_schema 3 label_heap 16 = describe_schema 3 try_heap 16"
    by blast
  from t l dt dl 5 lt closed_try_heap compile_extends_schema_compile try_again label_try_heap
    nested_try_heap
  show ?thesis by blast
qed

section \<open>The end of a switch\<close>

text \<open>
  \<open>flagged h a k v\<close>: the flags object of the schema at \<open>a\<close> holds \<open>v\<close> under \<open>k\<close>.
  \<open>prop_defined x k\<close>: \<open>x[k] !== undefined\<close>. The options of a \<open>when\<close> are exhaustive when
  they supply both \<open>then\<close> and \<open>otherwise\<close>: in the single form the two options; in the
  switch form, where every case has its \<open>then\<close>, an \<open>otherwise\<close> in the options or in the
  last case.
\<close>

definition flagged :: "heap \<Rightarrow> addr \<Rightarrow> string \<Rightarrow> jsval \<Rightarrow> bool" where
  "flagged h a k v =
     (\<exists>t f tm rs fl. cell_at h a = Some (Node t f tm rs) \<and> cell_at h f = Some (Flags fl)
        \<and> map_of fl k = Some v)"

abbreviation "switch_ended h obj \<equiv> flagged h obj ''_endedSwitch'' (JBool True)"

definition prop_defined :: "arg \<Rightarrow> string \<Rightarrow> bool" where
  "prop_defined x k = (case get_prop x k of Inr v \<Rightarrow> \<not> is_undefined v | Inl e \<Rightarrow> False)"

definition exhaustive :: "arg \<Rightarrow> bool" where
  "exhaustive options0 =
     (let options = when_options options0
      in if prop_defined options ''switch'' then
           (case get_prop options ''switch'' of
              Inr sw \<Rightarrow>
                (case as_array sw of
                   Some tests \<Rightarrow>
                     tests \<noteq> []
                     \<and> (prop_defined options ''otherwise''
                          \<or> prop_defined (last tests) ''otherwise'')
                 | None \<Rightarrow> False)
            | Inl e \<Rightarrow> False)
         else prop_defined options ''then'' \<and> prop_defined options ''otherwise'')"

text \<open>A \<open>when\<close> with \<open>is\<close>, \<open>then\<close> and \<open>otherwise\<close> on the empty alternatives schema of the
  \<open>try\<close> scenario, and the store after it.\<close>

definition then_otherwise :: arg where
  "then_otherwise = AObj [(''is'', ASchema 2), (''then'', ASchema 2), (''otherwise'', ASchema 8)]"

definition when_heap :: heap where
  "when_heap =
     try_heap @
     [Flags [(''_endedSwitch'', JBool True)], Array [23], Terms [(''matches'', Some 20)],
      Node ''alternatives'' 19 21 [],
      Item (IMatch \<lparr>m_schema = None, m_ref = Some grandparent_x, m_peek = None,
                     m_is = Some 2, m_then = Some 2, m_otherwise = Some 8\<rparr>)]"

lemma flagged_ext: "kept (length h) h h' \<Longrightarrow> flagged h a k v \<Longrightarrow> flagged h' a k v"
  unfolding flagged_def by (blast intro: ext_cell)

lemma setFlag_here_Inr:
  assumes "setFlag_here h obj k v = Inr h'"
  obtains t f tm rs fl where "cell_at h obj = Some (Node t f tm rs)"
    and "cell_at h f = Some (Flags fl)" and "h' = h[f := Flags (assoc_set fl k v)]"
  using assms unfolding setFlag_here_def by (auto split: option.splits cell.splits)

lemma setFlag_here_flagged:
  assumes "setFlag_here h obj k v = Inr h'"
  shows "flagged h' obj k v"
proof -
  from assms obtain t f tm rs fl where c: "cell_at h obj = Some (Node t f tm rs)"
    "cell_at h f = Some (Flags fl)" and h': "h' = h[f := Flags (assoc_set fl k v)]"
    by (rule setFlag_here_Inr)
  from c have ne: "f \<noteq> obj" "f < length h"
    by (auto simp: cell_at_def split: if_splits)
  show ?thesis
    unfolding flagged_def h' using c ne
    by (intro exI [of _ t] exI [of _ f] exI [of _ tm] exI [of _ rs]
        exI [of _ "assoc_set fl k v"]) (simp add: cell_at_update map_of_assoc_set)
qed

lemma setFlag_here_keeps:
  assumes "setFlag_here h obj k' v' = Inr h'" and "flagged h obj k v" and "k' \<noteq> k"
  shows "flagged h' obj k v"
proof -
  from assms(2) obtain t f tm rs fl where c: "cell_at h obj = Some (Node t f tm rs)"
    "cell_at h f = Some (Flags fl)" and m: "map_of fl k = Some v"
    unfolding flagged_def by blast
  from assms(1) c have h': "h' = h[f := Flags (assoc_set fl k' v')]"
    by (simp add: setFlag_here_def)
  from c have ne: "f \<noteq> obj" "f < length h"
    by (auto simp: cell_at_def split: if_splits)
  show ?thesis
    unfolding flagged_def h' using c ne m assms(3)
    by (intro exI [of _ t] exI [of _ f] exI [of _ tm] exI [of _ rs]
        exI [of _ "assoc_set fl k' v'"]) (simp add: cell_at_update map_of_assoc_set)
qed

lemma push_term_Inr:
  assumes "push_term h obj name it = Inr h'"
  obtains arr xs where "cell_at h arr = Some (Array xs)"
    and "h' = (h @ [Item it])[arr := Array (xs @ [length h])]"
proof -
  from assms obtain ao where
    "(case ao of
        None \<Rightarrow> Inl (TypeError ''Cannot read property push of null'')
      | Some arr \<Rightarrow>
          (case cell_at h arr of
             Some (Array xs) \<Rightarrow>
               (case alloc h (Item it) of
                  (h1, ia) \<Rightarrow> Inr (h1[arr := Array (xs @ [ia])]))
           | _ \<Rightarrow> Inl (TypeError ''push is not a function''))) = Inr h'"
    unfolding push_term_def by (auto simp: and_then_Inr_iff)
  then show ?thesis
    by (cases ao) (auto simp: alloc_def split: option.splits cell.splits intro: that)
qed

lemma push_term_flagged:
  assumes "push_term h obj name it = Inr h'" and "flagged h obj k v"
  shows "flagged h' obj k v"
proof -
  from assms(1) obtain arr xs where a: "cell_at h arr = Some (Array xs)"
    and h': "h' = (h @ [Item it])[arr := Array (xs @ [length h])]"
    by (rule push_term_Inr)
  from assms(2) obtain t f tm rs fl where c: "cell_at h obj = Some (Node t f tm rs)"
    "cell_at h f = Some (Flags fl)" "map_of fl k = Some v"
    unfolding flagged_def by blast
  from a c have "arr \<noteq> obj" "arr \<noteq> f" by auto
  with c h' have "cell_at h' obj = Some (Node t f tm rs)" "cell_at h' f = Some (Flags fl)"
    by (simp_all add: cell_at_update cell_at_append)
  with c(3) show ?thesis unfolding flagged_def by blast
qed

lemma end_switch_keeps: "end_switch h obj th ow = Inr h' \<Longrightarrow> switch_ended h obj \<Longrightarrow> switch_ended h' obj"
  by (auto simp: end_switch_def split: if_splits dest: setFlag_here_flagged)

lemma end_switch_sets: "end_switch h obj (Some th) (Some ow) = Inr h' \<Longrightarrow> switch_ended h' obj"
  by (auto simp: end_switch_def dest: setFlag_here_flagged)

lemma compile_opt_defined:
  "compile_opt B h x = Inr (h', c) \<Longrightarrow> \<not> is_undefined x \<Longrightarrow> c \<noteq> None"
  by (auto simp: compile_opt_def and_then_Inr_iff)

lemma normalize_steps:
  assumes "normalize B h obj m settings = Inr (h', it)"
  obtains s_then s_otherwise s_is h1 th h2 ow h3 "is" where
    "get_prop settings ''then'' = Inr s_then"
    and "get_prop settings ''otherwise'' = Inr s_otherwise"
    and "compile_opt B h s_then = Inr (h1, th)"
    and "compile_opt B h1 s_otherwise = Inr (h2, ow)"
    and "compile_is B h2 s_is = Inr (h3, is)"
    and "end_switch h3 obj th ow = Inr h'"
  using assms unfolding normalize_def by (auto simp: and_then_Inr_iff)

lemma normalize_keeps:
  assumes B: "compile_extends B" and nz: "normalize B h obj m settings = Inr (h', it)"
    and e: "switch_ended h obj"
  shows "switch_ended h' obj"
proof -
  from nz obtain s_then s_otherwise s_is h1 th h2 ow h3 "is" where
    c1: "compile_opt B h s_then = Inr (h1, th)"
    and c2: "compile_opt B h1 s_otherwise = Inr (h2, ow)"
    and c3: "compile_is B h2 s_is = Inr (h3, is)"
    and es: "end_switch h3 obj th ow = Inr h'"
    by (rule normalize_steps)
  from e compile_opt_ext [OF B c1] compile_opt_ext [OF B c2] compile_is_ext [OF B c3]
  have "switch_ended h3 obj" by (blast intro: flagged_ext)
  with es show ?thesis by (rule end_switch_keeps)
qed

lemma normalize_sets:
  assumes nz: "normalize B h obj m settings = Inr (h', it)"
    and t: "get_prop settings ''then'' = Inr s_then" "\<not> is_undefined s_then"
    and o: "get_prop settings ''otherwise'' = Inr s_otherwise" "\<not> is_undefined s_otherwise"
  shows "switch_ended h' obj"
proof -
  from nz t(1) o(1) obtain s_is h1 th h2 ow h3 "is" where
    c1: "compile_opt B h s_then = Inr (h1, th)"
    and c2: "compile_opt B h1 s_otherwise = Inr (h2, ow)"
    and es: "end_switch h3 obj th ow = Inr h'"
    by (elim normalize_steps) simp
  from compile_opt_defined [OF c1 t(2)] compile_opt_defined [OF c2 o(2)] es
  show ?thesis by (auto dest: end_switch_sets)
qed

lemma guard_Inr: "((if b then Inl e else m) = Inr y) = (\<not> b \<and> m = Inr y)"
  by simp

lemma when_switch_keeps:
  assumes B: "compile_extends B"
  shows "when_switch B h obj c tests ow = Inr h' \<Longrightarrow> switch_ended h obj \<Longrightarrow> switch_ended h' obj"
proof (induction tests arbitrary: h)
  case Nil
  then show ?case by simp
next
  case (Cons test tests)
  show ?case
  proof (cases "tests = []")
    case True
    with Cons.prems(1) obtain settings h1 it where
      nz: "normalize B h obj c settings = Inr (h1, it)"
      and p: "push_term h1 obj ''matches'' (IMatch it) = Inr h'"
      by (auto simp: and_then_Inr_iff split: if_splits)
    from p normalize_keeps [OF B nz Cons.prems(2)] show ?thesis by (rule push_term_flagged)
  next
    case False
    with Cons.prems(1) obtain h1 it h2 where
      nz: "normalize B h obj c test = Inr (h1, it)"
      and p: "push_term h1 obj ''matches'' (IMatch it) = Inr h2"
      and r: "when_switch B h2 obj c tests ow = Inr h'"
      by (auto simp: and_then_Inr_iff split: if_splits)
    from p normalize_keeps [OF B nz Cons.prems(2)] have "switch_ended h2 obj"
      by (rule push_term_flagged)
    with r show ?thesis by (rule Cons.IH)
  qed
qed

lemma when_switch_sets:
  assumes B: "compile_extends B"
  shows "when_switch B h obj c tests ow = Inr h' \<Longrightarrow> tests \<noteq> []
         \<Longrightarrow> \<not> is_undefined ow \<or> prop_defined (last tests) ''otherwise''
         \<Longrightarrow> switch_ended h' obj"
proof (induction tests arbitrary: h)
  case Nil
  then show ?case by simp
next
  case (Cons test tests)
  show ?case
  proof (cases "tests = []")
    case True
    with Cons.prems(1) obtain t_is t_then t_otherwise h1 it where
      t: "get_prop test ''then'' = Inr t_then" "\<not> is_undefined t_then"
      and o: "get_prop test ''otherwise'' = Inr t_otherwise"
      and nz: "normalize B h obj c
                 (AObj [(''is'', t_is), (''then'', t_then),
                        (''otherwise'', if \<not> is_undefined ow then ow else t_otherwise)])
               = Inr (h1, it)"
      and p: "push_term h1 obj ''matches'' (IMatch it) = Inr h'"
      by (auto simp: and_then_Inr_iff guard_Inr)
    from Cons.prems(3) True o
    have d: "\<not> is_undefined (if \<not> is_undefined ow then ow else t_otherwise)"
      by (auto simp: prop_defined_def)
    have "switch_ended h1 obj"
      by (rule normalize_sets [OF nz _ t(2) _ d]) (simp_all add: get_prop_def)
    with p show ?thesis by (rule push_term_flagged)
  next
    case False
    with Cons.prems(1) obtain h1 it h2 where
      r: "when_switch B h2 obj c tests ow = Inr h'"
      by (auto simp: and_then_Inr_iff split: if_splits)
    from Cons.prems(3) False show ?thesis by (intro Cons.IH [OF r]) simp_all
  qed
qed

lemma view_flagged: "view h a = Some s \<Longrightarrow> flagged h a k v \<Longrightarrow> flag s k = v"
  unfolding view_def flagged_def flag_def
  by (auto split: option.splits cell.splits)

lemma setFlag_here_view:
  assumes "setFlag_here h obj k v = Inr h'" and "view h obj = Some s"
  shows "\<exists>s'. view h' obj = Some s'"
proof -
  from assms(2) obtain t f tm rs fl ts where c: "cell_at h obj = Some (Node t f tm rs)"
    "cell_at h f = Some (Flags fl)" "cell_at h tm = Some (Terms ts)"
    unfolding view_def by (auto split: option.splits cell.splits)
  from assms(1) c have h': "h' = h[f := Flags (assoc_set fl k v)]"
    by (simp add: setFlag_here_def)
  from c have ne: "f \<noteq> obj" "f \<noteq> tm" "f < length h"
    by (auto simp: cell_at_def split: if_splits)
  with c show ?thesis
    unfolding h' view_def by (simp add: cell_at_update)
qed

lemma rebuild_view:
  assumes "rebuild h obj = Inr h'"
  shows "\<exists>s'. view h' obj = Some s'"
proof -
  from assms obtain s where v: "view h obj = Some s"
    and r: "h' = h \<or> setFlag_here h obj ''_arrayItems'' (JBool True) = Inr h'"
    unfolding rebuild_def by (auto split: option.splits if_splits)
  from r show ?thesis
  proof
    assume "h' = h"
    with v show ?thesis by simp
  next
    assume "setFlag_here h obj ''_arrayItems'' (JBool True) = Inr h'"
    then show ?thesis using v by (rule setFlag_here_view)
  qed
qed

lemma rebuild_keeps:
  assumes "rebuild h obj = Inr h'" and "switch_ended h obj"
  shows "switch_ended h' obj"
proof -
  from assms(1) have "h' = h \<or> setFlag_here h obj ''_arrayItems'' (JBool True) = Inr h'"
    unfolding rebuild_def by (auto split: option.splits if_splits)
  with assms(2) show ?thesis by (auto dest: setFlag_here_keeps)
qed

lemma mutateRebuild_ended:
  assumes "mutateRebuild h obj = Inr (h', S)" and "switch_ended h obj"
  shows "ended_switch h' S = Inr True"
proof -
  from assms(1) have r: "rebuild h obj = Inr h'" and S: "S = obj"
    by (auto simp: mutateRebuild_def and_then_Inr_iff)
  from rebuild_view [OF r] obtain s' where v: "view h' obj = Some s'" by blast
  from view_flagged [OF v rebuild_keeps [OF r assms(2)]] v S show ?thesis
    by (simp add: ended_switch_def js_truthy_def)
qed

lemma when_ended:
  assumes B: "compile_extends B" and w: "when_method B h this c opts = Inr (h', S)"
    and x: "exhaustive opts"
  shows "ended_switch h' S = Inr True"
proof -
  define options where "options = when_options opts"
  from w obtain o_switch o_then o_otherwise h1 obj where
    g: "get_prop options ''switch'' = Inr o_switch" "get_prop options ''then'' = Inr o_then"
       "get_prop options ''otherwise'' = Inr o_otherwise"
    and r: "(if is_undefined o_switch then
             and_then (normalize B h1 obj c options) (\<lambda>(h2, it).
             and_then (push_term h2 obj ''matches'' (IMatch it)) (\<lambda>h3.
               mutateRebuild h3 obj))
           else
             and_then
               (when_switch B h1 obj c
                  (case as_array o_switch of Some xs \<Rightarrow> xs | None \<Rightarrow> []) o_otherwise)
               (\<lambda>h2. mutateRebuild h2 obj)) = Inr (h', S)"
    unfolding when_method_def Let_def options_def [symmetric]
    by (auto simp: and_then_Inr_iff guard_Inr)
  show ?thesis
  proof (cases "is_undefined o_switch")
    case True
    with r obtain h2 it h3 where nz: "normalize B h1 obj c options = Inr (h2, it)"
      and p: "push_term h2 obj ''matches'' (IMatch it) = Inr h3"
      and m: "mutateRebuild h3 obj = Inr (h', S)"
      by (auto simp: and_then_Inr_iff)
    from x g True have d: "\<not> is_undefined o_then" "\<not> is_undefined o_otherwise"
      by (simp_all add: exhaustive_def options_def [symmetric] prop_defined_def)
    from p normalize_sets [OF nz g(2) d(1) g(3) d(2)] have "switch_ended h3 obj"
      by (rule push_term_flagged)
    with m show ?thesis by (rule mutateRebuild_ended)
  next
    case False
    with x g obtain tests where t: "as_array o_switch = Some tests" "tests \<noteq> []"
      "\<not> is_undefined o_otherwise \<or> prop_defined (last tests) ''otherwise''"
      by (auto simp: exhaustive_def options_def [symmetric] prop_defined_def
          split: option.splits)
    with r False obtain h2 where ws: "when_switch B h1 obj c tests o_otherwise = Inr h2"
      and m: "mutateRebuild h2 obj = Inr (h', S)"
      by (auto simp: and_then_Inr_iff)
    from when_switch_sets [OF B ws t(2) t(3)] have "switch_ended h2 obj" .
    with m show ?thesis by (rule mutateRebuild_ended)
  qed
qed

lemma assertOptions_get_prop: "assertOptions x ks = Inr u \<Longrightarrow> \<exists>v. get_prop x k = Inr v"
  by (auto simp: assertOptions_def get_prop_def split: arg.splits jsval.splits if_splits)

lemma try_ended:
  assumes "ended_switch h S = Inr True"
  shows "try_method B h S x =
           Inl (AssertError (if arg_truthy x then ''Unreachable condition''
                             else ''Missing alternative schemas''))"
  using assms by (simp add: try_method_def and_then_def)

lemma when_method_ended:
  assumes "ended_switch h S = Inr True"
  shows "when_method B h S c opts =
           (case assertOptions (when_options opts) [''is'', ''then'', ''otherwise'', ''switch''] of
              Inl e \<Rightarrow> Inl e
            | Inr u \<Rightarrow> Inl (AssertError ''Unreachable condition''))"
proof (cases "assertOptions (when_options opts) [''is'', ''then'', ''otherwise'', ''switch'']")
  case (Inl e)
  then show ?thesis by (simp add: when_method_def and_then_def)
next
  case (Inr u)
  from assertOptions_get_prop [OF Inr] obtain a b c d where
    "get_prop (when_options opts) ''switch'' = Inr a"
    "get_prop (when_options opts) ''is'' = Inr b"
    "get_prop (when_options opts) ''then'' = Inr c"
    "get_prop (when_options opts) ''otherwise'' = Inr d"
    by metis
  with Inr assms show ?thesis by (simp add: when_method_def and_then_def)
qed

lemma exhaustive_then_otherwise: "exhaustive then_otherwise"
  by (simp add: exhaustive_def then_otherwise_def when_options_def as_array_def
      prop_defined_def get_prop_def is_undefined_def)

lemma when_then_otherwise:
  "when_method schema_compile try_heap 12 (ARef grandparent_x) then_otherwise
     = Inr (when_heap, 22)"
  by (simp add: when_method_def when_options_def then_otherwise_def as_array_def
      assertOptions_def ended_switch_def view_def cell_at_def try_heap_def
      read_term_def read_array_def read_item_def flag_def js_truthy_def and_then_def clone_def
      alloc_def schema_compile_def push_term_def term_array_def mutateRebuild_def
      rebuild_def terms_of_def match_has_array_def type_at_def
      get_prop_def is_undefined_def is_ref_def is_schema_def is_string_def arg_truthy_def
      normalize_def compile_opt_def compile_is_def end_switch_def setFlag_here_def
      when_heap_def)

text \<open>
  C10. After a \<open>when\<close> whose options supply both \<open>then\<close> and \<open>otherwise\<close> has returned, the
  flag \<open>_endedSwitch\<close> of the schema it returned is set, and every \<open>try\<close> and every \<open>when\<close>
  on that schema throws: \<open>try\<close> throws 'Unreachable condition' for every argument that
  passes its first assertion (the only one before the flag is tested), \<open>when\<close> for all
  options that pass \<open>assertOptions\<close> (the only check before the flag is tested).
\<close>

theorem ended_switch_unreachable:
  assumes "compile_extends B" and "when_method B h this c opts = Inr (h', S)"
    and "exhaustive opts"
  shows "ended_switch h' S = Inr True
       \<and> try_method B' h' S x =
           Inl (AssertError (if arg_truthy x then ''Unreachable condition''
                             else ''Missing alternative schemas''))
       \<and> when_method B' h' S c' opts' =
           (case assertOptions (when_options opts') [''is'', ''then'', ''otherwise'', ''switch''] of
              Inl e \<Rightarrow> Inl e
            | Inr u \<Rightarrow> Inl (AssertError ''Unreachable condition''))"
  using when_ended [OF assms] try_ended when_method_ended by simp

theorem ended_switch_unreachable_witness:
  "compile_extends schema_compile
   \<and> when_method schema_compile try_heap 12 (ARef grandparent_x) then_otherwise
       = Inr (when_heap, 22)
   \<and> exhaustive then_otherwise
   \<and> try_method schema_compile when_heap 22 (ASchema 2)
       = Inl (AssertError ''Unreachable condition'')
   \<and> when_method schema_compile when_heap 22 (ARef grandparent_x) then_otherwise
       = Inl (AssertError ''Unreachable condition'')"
proof -
  note t = ended_switch_unreachable [OF compile_extends_schema_compile when_then_otherwise
      exhaustive_then_otherwise, where B' = schema_compile and x = "ASchema 2"
      and c' = "ARef grandparent_x" and opts' = then_otherwise]
  have "arg_truthy (ASchema 2)" by (simp add: arg_truthy_def)
  moreover have "assertOptions (when_options then_otherwise)
      [''is'', ''then'', ''otherwise'', ''switch''] = Inr ()"
    by (simp add: assertOptions_def when_options_def then_otherwise_def as_array_def)
  ultimately show ?thesis
    using t compile_extends_schema_compile when_then_otherwise exhaustive_then_otherwise
    by simp
qed

section \<open>Invalid arguments and invalid data\<close>

text \<open>
  A call throws when its result is an error. The references of a schema are within
  the root in a state when none of the references in its length rules asks for more
  ancestors than the state has: such a reference is where \<open>resolve\<close> throws.
\<close>

definition throws :: "error + 'a \<Rightarrow> bool" where
  "throws m = (case m of Inl e \<Rightarrow> True | Inr x \<Rightarrow> False)"

definition is_regexp :: "jsval \<Rightarrow> bool" where
  "is_regexp v = (case v of JRegExp i source flags \<Rightarrow> True | _ \<Rightarrow> False)"

definition within_root :: "ref \<Rightarrow> vstate \<Rightarrow> bool" where
  "within_root r state =
     (case ancestor r of
        Some (Depth n) \<Rightarrow>
          type r = TGlobal \<or> type r = TLocal \<or> n \<le> int (length (ancestors state))
      | _ \<Rightarrow> True)"

definition rule_within :: "vstate \<Rightarrow> rule \<Rightarrow> bool" where
  "rule_within state rule =
     (case r_args rule of LengthArgs (LimitRef r) _ \<Rightarrow> within_root r state | _ \<Rightarrow> True)"

definition refs_within :: "schema \<Rightarrow> vstate \<Rightarrow> bool" where
  "refs_within s state = list_all (rule_within state) (s_rules s)"

definition switch_is :: arg where
  "switch_is = AObj [(''switch'', AArr []), (''is'', ASchema 2)]"

lemma resolve_within:
  "within_root r state \<Longrightarrow> \<exists>x. resolve reach r v state prefs local opts = Inr x"
  by (auto simp: resolve_def within_root_def split: option.splits ancestor_val.splits)

lemma coerce_truncate_returns:
  assumes "refs_within s state"
  shows "\<exists>res. coerce_truncate env reach s v state prefs = Inr res"
proof (cases "getRule s ''max''")
  case None
  then show ?thesis by (simp add: coerce_truncate_def)
next
  case (Some rule)
  then have "rule \<in> set (s_rules s)"
    by (auto simp: getRule_def find_Some_iff)
  with assms have w: "rule_within state rule"
    by (simp add: refs_within_def list_all_iff)
  show ?thesis
  proof (cases "r_args rule")
    case (LengthArgs l enc)
    show ?thesis
    proof (cases l)
      case (LimitNum n)
      with Some LengthArgs show ?thesis by (simp add: coerce_truncate_def)
    next
      case (LimitRef r)
      with w LengthArgs have "within_root r state" by (simp add: rule_within_def)
      from resolve_within [OF this] obtain x where
        "resolve reach r (JStr v) state prefs JUndefined \<lparr>shadow_off = False\<rparr> = Inr x"
        by blast
      with Some LengthArgs LimitRef show ?thesis
        by (simp add: coerce_truncate_def split: jsval.splits)
    qed
  qed (use Some in \<open>simp_all add: coerce_truncate_def\<close>)
qed

lemma coerce_returns:
  "refs_within s state \<Longrightarrow> \<exists>res. coerce env reach s v state prefs = Inr res"
  by (simp add: coerce_def Let_def coerce_truncate_returns split: option.splits)

lemma resolve_limit_returns:
  assumes "rule_within state rule" and "r_args rule = LengthArgs l enc"
  shows "\<exists>x. resolve_limit env reach l v state prefs = Inr x"
proof (cases l)
  case (LimitNum n)
  then show ?thesis by (simp add: resolve_limit_def)
next
  case (LimitRef r)
  with assms have "within_root r state" by (simp add: rule_within_def)
  from resolve_within [OF this] obtain x where
    "resolve reach r v state prefs JUndefined \<lparr>shadow_off = False\<rparr> = Inr x" by blast
  with LimitRef show ?thesis
    by (simp add: resolve_limit_def and_then_def split: jsval.splits)
qed

lemma run_rules_returns:
  "list_all (rule_within state) rules
   \<Longrightarrow> \<exists>res. run_rules env other reach rules v state prefs = Inr res"
proof (induction rules arbitrary: v)
  case Nil
  then show ?case by simp
next
  case (Cons rule rules)
  then have w: "rule_within state rule"
    and ih: "\<And>v. \<exists>res. run_rules env other reach rules v state prefs = Inr res"
    by simp_all
  show ?case
  proof (cases "\<exists>l enc s. r_method rule = ''length'' \<and> r_args rule = LengthArgs l enc
                  \<and> v = JStr s")
    case True
    then obtain l enc s where m: "r_method rule = ''length''"
      "r_args rule = LengthArgs l enc" "v = JStr s" by blast
    from resolve_limit_returns [OF w m(2)] obtain x where
      x: "resolve_limit env reach l v state prefs = Inr x" by blast
    show ?thesis
    proof (cases x)
      case (Inl e)
      with m x show ?thesis by (simp add: and_then_def)
    next
      case (Inr n)
      with m x ih show ?thesis
        by (cases "rules_length_validate env s n enc rule") (simp_all add: and_then_def)
    qed
  next
    case False
    then have "run_rules env other reach (rule # rules) v state prefs =
      (case other rule v of
         None \<Rightarrow> run_rules env other reach rules v state prefs
       | Some e \<Rightarrow> Inr \<lparr>v_value = Some v, v_errors = ErrMany [e]\<rparr>)"
      by (auto split: bool.splits rule_args.splits jsval.splits)
    with ih show ?thesis by (cases "other rule v") simp_all
  qed
qed

lemma validate_node_returns:
  assumes "refs_within s state"
  shows "\<exists>res. validate_node env other reach s v state prefs = Inr res"
proof -
  have "\<exists>c. (case (prefs_convert prefs \<and> s_type s = ''string'', v) of
          (True, JStr x) \<Rightarrow> coerce env reach s x state prefs
        | _ \<Rightarrow> Inr \<lparr>v_value = Some v, v_errors = NoErrors\<rparr>) = Inr c"
    using coerce_returns [OF assms]
    by (simp split: bool.splits jsval.splits)
  then obtain c where c: "(case (prefs_convert prefs \<and> s_type s = ''string'', v) of
          (True, JStr x) \<Rightarrow> coerce env reach s x state prefs
        | _ \<Rightarrow> Inr \<lparr>v_value = Some v, v_errors = NoErrors\<rparr>) = Inr c"
    by blast
  from assms have r: "\<And>x. \<exists>res. run_rules env other reach (s_rules s) x state prefs = Inr res"
    by (simp add: refs_within_def run_rules_returns)
  show ?thesis
    unfolding validate_node_def c and_then_def
    using r by (simp add: Let_def split: errors_val.splits option.splits)
qed

lemma pattern_not_regexp:
  "\<not> is_regexp regex
   \<Longrightarrow> rules_pattern env h this regex opts = Inl (AssertError ''regex must be a RegExp'')"
  by (cases regex) (simp_all add: rules_pattern_def is_regexp_def)

lemma pattern_global:
  "CHR ''g'' \<in> set flags \<or> CHR ''y'' \<in> set flags
   \<Longrightarrow> rules_pattern env h this (JRegExp i source flags) opts
       = Inl (AssertError ''regex should not use global or sticky mode'')"
  by (auto simp: rules_pattern_def)

lemma pattern_unknown_key:
  assumes "k \<in> fst ` set kvs" and "k \<notin> {''invert'', ''name''}"
  shows "throws (rules_pattern env h this regex (JObj i kvs))"
proof -
  from assms have "\<not> list_all (\<lambda>k. k \<in> set [''invert'', ''name'']) (map fst kvs)"
    by (auto simp: list_all_iff)
  then have "assertOptions (AObj (map (\<lambda>(k, v). (k, AVal v)) kvs)) [''invert'', ''name'']
               = Inl (AssertError ''Options contain unknown keys'')"
    by (simp add: assertOptions_def comp_def case_prod_beta)
  then show ?thesis
    by (cases regex)
      (simp_all add: rules_pattern_def pattern_options_def throws_def and_then_def)
qed

lemma falsy_no_array: "\<not> arg_truthy x \<Longrightarrow> as_array x = None"
  by (auto simp: arg_truthy_def as_array_def js_truthy_def split: arg.splits jsval.splits)

lemma prop_defined_options: "prop_defined x k \<Longrightarrow> when_options x = x"
  by (auto simp: prop_defined_def when_options_def as_array_def get_prop_def is_undefined_def
      split: arg.splits jsval.splits)

lemma throws_and_then:
  "throws (and_then m f) = (case m of Inl e \<Rightarrow> True | Inr x \<Rightarrow> throws (f x))"
  by (simp add: throws_def and_then_def split: sum.splits)

lemma throws_Inl: "throws (Inl e)"
  by (simp add: throws_def)

lemma when_combines:
  assumes s: "prop_defined opts ''switch''"
    and i: "prop_defined opts ''is'' \<or> prop_defined opts ''then''"
  shows "throws (when_method B h this c opts)"
proof -
  from s obtain sw where sw: "get_prop opts ''switch'' = Inr sw" "\<not> is_undefined sw"
    by (auto simp: prop_defined_def split: sum.splits)
  have a: "as_array sw = None" if "\<not> arg_truthy sw"
    using that by (rule falsy_no_array)
  from i sw a show ?thesis
    unfolding when_method_def Let_def prop_defined_options [OF s]
    by (auto simp: throws_and_then throws_Inl prop_defined_def split: sum.splits)
qed

lemma when_nothing:
  assumes "\<not> prop_defined (when_options opts) ''then''"
    and "\<not> prop_defined (when_options opts) ''otherwise''"
    and "\<not> prop_defined (when_options opts) ''switch''"
  shows "throws (when_method B h this c opts)"
  using assms unfolding when_method_def Let_def
  by (auto simp: throws_and_then throws_Inl prop_defined_def split: sum.splits)

text \<open>
  C7. Invalid arguments throw when the schema is built: \<open>pattern\<close> throws on a regex
  that is not a RegExp, on one with the global or the sticky flag, and on options with a
  key other than \<open>invert\<close> and \<open>name\<close>; \<open>when\<close> throws on options that combine \<open>switch\<close> with
  \<open>is\<close> or with \<open>then\<close>, and on options with none of \<open>then\<close>, \<open>otherwise\<close> and \<open>switch\<close>.
  Invalid data does not throw: the validation of a node returns a result for every
  value, its errors inside the result, as long as the references of its rules are within
  the root.
\<close>

theorem invalid_arguments_throw:
  "(\<not> is_regexp regex \<longrightarrow>
      rules_pattern env h this regex opts = Inl (AssertError ''regex must be a RegExp''))
 \<and> (CHR ''g'' \<in> set flags \<or> CHR ''y'' \<in> set flags \<longrightarrow>
      rules_pattern env h this (JRegExp i source flags) opts
        = Inl (AssertError ''regex should not use global or sticky mode''))
 \<and> (k \<in> fst ` set kvs \<and> k \<notin> {''invert'', ''name''} \<longrightarrow>
      throws (rules_pattern env h this regex (JObj i kvs)))
 \<and> (prop_defined wopts ''switch''
      \<and> (prop_defined wopts ''is'' \<or> prop_defined wopts ''then'') \<longrightarrow>
      throws (when_method B h this c wopts))
 \<and> (\<not> prop_defined (when_options wopts) ''then''
      \<and> \<not> prop_defined (when_options wopts) ''otherwise''
      \<and> \<not> prop_defined (when_options wopts) ''switch'' \<longrightarrow>
      throws (when_method B h this c wopts))
 \<and> (refs_within s state \<longrightarrow>
      \<not> throws (validate_node env other reach s v state prefs))"
proof (intro conjI impI)
  assume "\<not> is_regexp regex"
  then show "rules_pattern env h this regex opts = Inl (AssertError ''regex must be a RegExp'')"
    by (rule pattern_not_regexp)
next
  assume "CHR ''g'' \<in> set flags \<or> CHR ''y'' \<in> set flags"
  then show "rules_pattern env h this (JRegExp i source flags) opts
        = Inl (AssertError ''regex should not use global or sticky mode'')"
    by (rule pattern_global)
next
  assume "k \<in> fst ` set kvs \<and> k \<notin> {''invert'', ''name''}"
  then show "throws (rules_pattern env h this regex (JObj i kvs))"
    using pattern_unknown_key [of k kvs] by simp
next
  assume "prop_defined wopts ''switch''
      \<and> (prop_defined wopts ''is'' \<or> prop_defined wopts ''then'')"
  then show "throws (when_method B h this c wopts)"
    using when_combines [of wopts] by simp
next
  assume "\<not> prop_defined (when_options wopts) ''then''
      \<and> \<not> prop_defined (when_options wopts) ''otherwise''
      \<and> \<not> prop_defined (when_options wopts) ''switch''"
  then show "throws (when_method B h this c wopts)"
    using when_nothing [of wopts] by simp
next
  assume "refs_within s state"
  from validate_node_returns [OF this, of env other reach v prefs]
  show "\<not> throws (validate_node env other reach s v state prefs)"
    by (auto simp: throws_def)
qed

theorem invalid_arguments_throw_witness:
  "\<not> is_regexp (JStr ''a'')
   \<and> rules_pattern plain_env try_heap 5 (JStr ''a'') JUndefined
       = Inl (AssertError ''regex must be a RegExp'')
   \<and> rules_pattern plain_env try_heap 5 (JRegExp 8 ''a'' ''g'') JUndefined
       = Inl (AssertError ''regex should not use global or sticky mode'')
   \<and> throws (rules_pattern plain_env try_heap 5 (JRegExp 8 ''a'' [])
               (JObj 7 [(''first'', JBool True)]))
   \<and> prop_defined switch_is ''switch'' \<and> prop_defined switch_is ''is''
   \<and> throws (when_method schema_compile try_heap 12 (ARef grandparent_x) switch_is)
   \<and> throws (when_method schema_compile try_heap 12 (ARef grandparent_x) (AObj []))
   \<and> refs_within iso_max_schema no_state
   \<and> \<not> throws (validate_node plain_env (\<lambda>r v. None) reach_plain iso_max_schema (JStr ''abc'')
                  no_state (context_prefs JNull))"
proof -
  note t = invalid_arguments_throw [where regex = "JStr ''a''" and env = plain_env
      and h = try_heap and opts = JUndefined and flags = "''g''"
      and source = "''a''" and k = "''first''" and kvs = "[(''first'', JBool True)]"
      and wopts = switch_is and B = schema_compile and c = "ARef grandparent_x"
      and s = iso_max_schema and state = no_state and other = "\<lambda>r v. None"
      and reach = reach_plain and v = "JStr ''abc''" and prefs = "context_prefs JNull"]
  note u = invalid_arguments_throw [where wopts = "AObj []" and B = schema_compile
      and h = try_heap and this = 12 and c = "ARef grandparent_x"]
  have a: "\<not> is_regexp (JStr ''a'')" by (simp add: is_regexp_def)
  have b: "prop_defined switch_is ''switch''" "prop_defined switch_is ''is''"
    by (simp_all add: prop_defined_def switch_is_def get_prop_def is_undefined_def)
  have c: "\<not> prop_defined (when_options (AObj [])) k" for k
    by (simp add: prop_defined_def when_options_def as_array_def get_prop_def is_undefined_def)
  have d: "refs_within iso_max_schema no_state"
    by (simp add: refs_within_def iso_max_schema_def rule_within_def)
  have e: "''first'' \<in> fst ` set [(''first'', JBool True)] \<and> ''first'' \<notin> {''invert'', ''name''}"
    by simp
  have f: "CHR ''g'' \<in> set ''g''" by simp
  from t a have 1: "rules_pattern plain_env try_heap 5 (JStr ''a'') JUndefined
       = Inl (AssertError ''regex must be a RegExp'')" by simp
  from t f have 2: "rules_pattern plain_env try_heap 5 (JRegExp 8 ''a'' ''g'') JUndefined
       = Inl (AssertError ''regex should not use global or sticky mode'')" by simp
  from invalid_arguments_throw [where k = "''first''" and kvs = "[(''first'', JBool True)]"
      and regex = "JRegExp 8 ''a'' []" and env = plain_env and h = try_heap and this = 5] e
  have 3: "throws (rules_pattern plain_env try_heap 5 (JRegExp 8 ''a'' [])
               (JObj 7 [(''first'', JBool True)]))" by simp
  from t b have 4: "throws (when_method schema_compile try_heap 12 (ARef grandparent_x)
      switch_is)" by simp
  from u c have 5: "throws (when_method schema_compile try_heap 12 (ARef grandparent_x)
      (AObj []))" by simp
  from t d have 6: "\<not> throws (validate_node plain_env (\<lambda>r v. None) reach_plain
      iso_max_schema (JStr ''abc'') no_state (context_prefs JNull))" by simp
  from a 1 2 3 b 4 5 d 6 show ?thesis by simp
qed

end
